theory Spec2Isabelle
  imports Complex_Main "HOL-Library.Word"
begin

unbundle bit_operations_syntax

section \<open>The arithmetic coder of helpers.c\<close>

subsection \<open>Constants and global state\<close>

type_synonym u8 = "8 word"
type_synonym u32 = "32 word"
type_synonym u64 = "64 word"

definition HEADER :: nat where "HEADER = 45"
definition BBYTES :: nat where "BBYTES = 7"
definition BBITS :: nat where "BBITS = BBYTES * 8"
definition FULL :: u64 where "FULL = push_bit BBITS 1 - 1"
definition FULLBYTE :: u8 where "FULLBYTE = 255"
definition PART :: u64 where "PART = push_bit (BBITS - 8) 1"
definition ZERO :: u8 where "ZERO = 0"
definition MINR :: u64 where "MINR = push_bit (BBITS - 15) 1"

text \<open>
  Every way a run of the C code can stop early: a failed \<^verbatim>\<open>assert\<close> (tagged with its
  line in helpers.c, encoder.c or quantize.c), an array access outside the array, a division
  by zero, \<^verbatim>\<open>read_error()\<close>, and any other \<^verbatim>\<open>exit(EXIT_FAILURE)\<close>.
\<close>

datatype error = AssertFail nat | OutOfBounds | DivByZero | ReadError | ExitFailure

text \<open>
  The process-wide variables of helpers.c. \<^verbatim>\<open>int first\<close> is only used as a flag.
  The scratch globals \<^verbatim>\<open>low, high, scale, byte\<close> are written before they are read in
  every call, so they are local \<open>let\<close>s in the model. The cumulative total is the field
  \<open>total_c\<close>.
\<close>

record coder =
  total_c :: u64
  L :: u64
  R :: u64
  last_non_ff_byte :: u8
  num_ff_bytes :: u32
  first :: bool
  bytes_out :: u64
  D :: u64

text \<open>The initialisers of the globals; \<^verbatim>\<open>total\<close> is assigned when the bins file is read.\<close>

definition coder_init :: "u64 \<Rightarrow> coder" where
  "coder_init t =
     \<lparr>total_c = t, L = 0, R = FULL, last_non_ff_byte = 0, num_ff_bytes = 0,
      first = True, bytes_out = of_nat HEADER, D = 0\<rparr>"

text \<open>
  The last step of \<^verbatim>\<open>make_arrays_and_read_bin_data\<close>: the frequencies are turned into
  cumulative frequencies in place, \<^verbatim>\<open>c[i] += c[i-1]\<close>, in 64-bit arithmetic.
\<close>

fun cumfreqs :: "u64 \<Rightarrow> u64 list \<Rightarrow> u64 list" where
  "cumfreqs acc [] = []"
| "cumfreqs acc (x # xs) = (acc + x) # cumfreqs (acc + x) xs"

subsection \<open>Encoder\<close>

text \<open>An output file is the list of bytes written so far; \<^verbatim>\<open>fputc\<close> appends.\<close>

definition fputc :: "u8 \<Rightarrow> coder \<times> u8 list \<Rightarrow> coder \<times> u8 list" where
  "fputc b = (\<lambda>(g, fp). (g\<lparr>bytes_out := bytes_out g + 1\<rparr>, fp @ [b]))"

text \<open>The arithmetic coding step proper (helpers.c lines 111 to 128).\<close>

definition coding_step :: "nat \<Rightarrow> u64 list \<Rightarrow> coder \<Rightarrow> coder" where
  "coding_step s c g =
     (let low = (if s = 0 then 0 else c ! (s - 1));
          high = c ! s;
          scale = R g div total_c g;
          g1 = g\<lparr>L := L g + low * scale\<rparr>
      in if high < total_c g then g1\<lparr>R := (high - low) * scale\<rparr>
         else g1\<lparr>R := R g1 - low * scale\<rparr>)"

text \<open>The loop of lines 137 to 142, pushing a carry through the pending ff bytes.\<close>

function carry_loop :: "coder \<Rightarrow> u8 list \<Rightarrow> coder \<times> u8 list" where
  "carry_loop g fp =
     (if num_ff_bytes g > 0
      then carry_loop (g\<lparr>num_ff_bytes := num_ff_bytes g - 1, last_non_ff_byte := ZERO,
                          bytes_out := bytes_out g + 1\<rparr>) (fp @ [last_non_ff_byte g])
      else (g, fp))"
  by pat_completeness auto
termination
  by (relation "measure (\<lambda>(g, fp). unat (num_ff_bytes g))")
     (auto simp: word_greater_zero_iff unat_minus_one unat_gt_0)

text \<open>The carry block, lines 131 to 143.\<close>

definition carry_step :: "coder \<Rightarrow> u8 list \<Rightarrow> coder \<times> u8 list" where
  "carry_step g fp =
     (if L g > FULL
      then carry_loop (g\<lparr>last_non_ff_byte := last_non_ff_byte g + 1, L := L g AND FULL\<rparr>) fp
      else (g, fp))"

text \<open>The loops of lines 156 to 160 and 182 to 186, writing the pending ff bytes.\<close>

function flush_ff_loop :: "coder \<Rightarrow> u8 list \<Rightarrow> coder \<times> u8 list" where
  "flush_ff_loop g fp =
     (if num_ff_bytes g \<noteq> 0
      then flush_ff_loop (g\<lparr>num_ff_bytes := num_ff_bytes g - 1,
                             bytes_out := bytes_out g + 1\<rparr>) (fp @ [FULLBYTE])
      else (g, fp))"
  by pat_completeness auto
termination
  by (relation "measure (\<lambda>(g, fp). unat (num_ff_bytes g))")
     (auto simp: unat_minus_one unat_gt_0)

text \<open>One iteration of the renormalisation loop, lines 147 to 169.\<close>

definition renorm_body :: "coder \<Rightarrow> u8 list \<Rightarrow> coder \<times> u8 list" where
  "renorm_body g fp =
     (let byte = (ucast (drop_bit (BBITS - 8) (L g)) :: u8);
          (g1, fp1) =
            (if byte \<noteq> FULLBYTE
             then (let (g', fp') = (if \<not> first g then fputc (last_non_ff_byte g) (g, fp)
                                    else (g, fp));
                       (g'', fp'') = flush_ff_loop g' fp'
                   in (g''\<lparr>last_non_ff_byte := byte, first := False\<rparr>, fp''))
             else (g\<lparr>num_ff_bytes := num_ff_bytes g + 1\<rparr>, fp))
      in (g1\<lparr>L := push_bit 8 (L g1) AND FULL, R := push_bit 8 (R g1)\<rparr>, fp1))"

text \<open>
  The loop \<^verbatim>\<open>while (R < PART)\<close>. With \<open>R = 0\<close> it never exits, so the loop is a partial
  function: \<open>None\<close> is a run that does not return.
\<close>

partial_function (option) renorm_loop :: "coder \<Rightarrow> u8 list \<Rightarrow> (coder \<times> u8 list) option" where
  "renorm_loop g fp =
     (if R g < PART
      then renorm_loop (fst (renorm_body g fp)) (snd (renorm_body g fp))
      else Some (g, fp))"

declare renorm_loop.simps [code]

text \<open>
  \<^verbatim>\<open>arith_encode(s, c, n, fp)\<close>. The parameter \<open>n\<close> is not used by the C code; the array
  \<open>c\<close> is the list of its \<open>n\<close> entries, and an index outside it is an error of the model.
\<close>

definition arith_encode ::
    "nat \<Rightarrow> u64 list \<Rightarrow> coder \<Rightarrow> u8 list \<Rightarrow> (error + coder \<times> u8 list) option" where
  "arith_encode s c g fp =
     (if \<not> R g > total_c g then Some (Inl (AssertFail 109))
      else if \<not> s < length c then Some (Inl OutOfBounds)
      else if total_c g = 0 then Some (Inl DivByZero)
      else (let (g', fp') = carry_step (coding_step s c g) fp
            in map_option Inr (renorm_loop g' fp')))"

text \<open>\<^verbatim>\<open>encoder_close\<close>, lines 175 to 193.\<close>

definition encoder_close :: "coder \<Rightarrow> u8 list \<Rightarrow> coder \<times> u8 list" where
  "encoder_close g fp =
     (let (g1, fp1) = (if \<not> first g then fputc (last_non_ff_byte g) (g, fp) else (g, fp));
          (g2, fp2) = flush_ff_loop g1 fp1
      in fold (\<lambda>i. fputc (ucast (drop_bit (8 * i) (L g2) AND 255))) (rev [0..<BBYTES]) (g2, fp2))"

subsection \<open>Decoder\<close>

text \<open>
  An input file is the list of bytes not yet read. \<^verbatim>\<open>fgetc\<close> returns the next byte as
  an \<^verbatim>\<open>int\<close> in 0..255, or \<^verbatim>\<open>EOF\<close>, which is -1, once the file is exhausted.
\<close>

fun fgetc :: "u8 list \<Rightarrow> int \<times> u8 list" where
  "fgetc [] = (- 1, [])"
| "fgetc (b # bs) = (uint b, bs)"

text \<open>\<^verbatim>\<open>decoder_start\<close>: \<^verbatim>\<open>D <<= 8; D += fgetc(fp);\<close> seven times.\<close>

fun decoder_start_loop :: "nat \<Rightarrow> coder \<Rightarrow> u8 list \<Rightarrow> coder \<times> u8 list" where
  "decoder_start_loop 0 g fp = (g, fp)"
| "decoder_start_loop (Suc k) g fp =
     (let (ch, fp') = fgetc fp
      in decoder_start_loop k (g\<lparr>D := push_bit 8 (D g) + word_of_int ch\<rparr>) fp')"

definition decoder_start :: "coder \<Rightarrow> u8 list \<Rightarrow> coder \<times> u8 list" where
  "decoder_start g fp = decoder_start_loop BBYTES (g\<lparr>D := 0\<rparr>) fp"

text \<open>
  A C \<^verbatim>\<open>int\<close> holds 32 bits in two's complement. \<open>to_int x\<close> is the \<^verbatim>\<open>int\<close> that holds the
  integer \<open>x\<close>: what a \<^verbatim>\<open>size_t\<close> becomes when it is assigned to an \<^verbatim>\<open>int\<close>, and what \<^verbatim>\<open>int\<close>
  arithmetic leaves when its result does not fit. \<open>c_div\<close> is the division of C, which
  truncates. C leaves the overflow of \<^verbatim>\<open>int\<close> arithmetic undefined; the model wraps. In the
  two searches below, started as the code starts them with \<open>lo = 0\<close> and a \<open>hi\<close> that \<open>to_int\<close>
  returned, no operation overflows and no index is negative: they agree with the same
  searches on the integers (lemmas \<open>dec_search_eq\<close> and \<open>bin_search_eq\<close>). What differs
  from the integers is the value of \<open>hi\<close> itself, once \<open>n - 1\<close> is \<open>2^31\<close> or more.
\<close>

definition to_int :: "int \<Rightarrow> int" where
  "to_int x = signed_take_bit 31 x"

definition c_div :: "int \<Rightarrow> int \<Rightarrow> int" where
  "c_div a b = sgn a * sgn b * (\<bar>a\<bar> div \<bar>b\<bar>)"

text \<open>
  The binary search of lines 234 to 244. \<open>lo\<close> and \<open>hi\<close> are \<^verbatim>\<open>int\<close>s, \<open>v\<close> is a
  \<^verbatim>\<open>size_t\<close>: \<^verbatim>\<open>v = lo + (hi-lo)/2\<close> converts an \<^verbatim>\<open>int\<close> to \<^verbatim>\<open>size_t\<close>, and \<^verbatim>\<open>lo = v+1\<close> and
  \<^verbatim>\<open>hi = v\<close> convert back.
\<close>

partial_function (option) dec_search :: "u64 list \<Rightarrow> u64 \<Rightarrow> int \<Rightarrow> int \<Rightarrow> int option" where
  "dec_search c target lo hi =
     (if lo < hi
      then (let v = (word_of_int (to_int (lo + c_div (to_int (hi - lo)) 2)) :: u64)
            in if c ! unat v \<le> target then dec_search c target (to_int (uint (v + 1))) hi
               else dec_search c target lo (to_int (uint v)))
      else Some lo)"

declare dec_search.simps [code]

text \<open>The loop of lines 268 to 274, bringing in input bytes.\<close>

partial_function (option) dec_renorm_loop ::
    "coder \<Rightarrow> u8 list \<Rightarrow> (coder \<times> u8 list) option" where
  "dec_renorm_loop g fp =
     (if R g < PART
      then dec_renorm_loop
             (g\<lparr>R := push_bit 8 (R g),
                D := (push_bit 8 (D g) AND FULL) + word_of_int (fst (fgetc fp))\<rparr>)
             (snd (fgetc fp))
      else Some (g, fp))"

declare dec_renorm_loop.simps [code]

text \<open>
  \<^verbatim>\<open>arith_decode(c, n, fp)\<close>, with \<open>n\<close> the length of \<open>c\<close>. \<open>low\<close>, \<open>high\<close> and
  \<open>scale\<close> are locals here, as in the C code. \<^verbatim>\<open>hi = n-1\<close> assigns a \<^verbatim>\<open>size_t\<close> to an
  \<^verbatim>\<open>int\<close>, and \<^verbatim>\<open>v = lo\<close> an \<^verbatim>\<open>int\<close> to a \<^verbatim>\<open>size_t\<close>.
\<close>

definition arith_decode ::
    "u64 list \<Rightarrow> coder \<Rightarrow> u8 list \<Rightarrow> (error + nat \<times> coder \<times> u8 list) option" where
  "arith_decode c g fp =
     (if total_c g = 0 then Some (Inl DivByZero)
      else let scale = R g div total_c g in
      if \<not> scale > 0 then Some (Inl (AssertFail 219))
      else let target0 = D g div scale;
               target = (if target0 \<ge> total_c g then total_c g - 1 else target0) in
      (case dec_search c target 0 (to_int (int (length c) - 1)) of
         None \<Rightarrow> None
       | Some lo \<Rightarrow>
      let v = unat (word_of_int lo :: u64) in
      if \<not> (v = 0 \<or> c ! (v - 1) \<le> target) then Some (Inl (AssertFail 247))
      else if \<not> v < length c then Some (Inl (AssertFail 248))
      else if \<not> target < c ! v then Some (Inl (AssertFail 249))
      else let low = (if v = 0 then 0 else c ! (v - 1));
               high = c ! v;
               g1 = g\<lparr>D := D g - low * scale\<rparr>;
               g2 = (if high < total_c g then g1\<lparr>R := (high - low) * scale\<rparr>
                     else g1\<lparr>R := R g1 - low * scale\<rparr>) in
      if \<not> D g2 \<le> R g2 then Some (Inl (AssertFail 266))
      else (case dec_renorm_loop g2 fp of
              None \<Rightarrow> None
            | Some (g3, fp3) \<Rightarrow>
                if \<not> D g3 \<le> R g3 then Some (Inl (AssertFail 275))
                else Some (Inr (v, g3, fp3)))))"

subsection \<open>Running the coder over a sequence of symbols\<close>

text \<open>One \<^verbatim>\<open>arith_encode\<close> per symbol, as in the loop of encoder.c.\<close>

fun encode_all ::
    "nat list \<Rightarrow> u64 list \<Rightarrow> coder \<Rightarrow> u8 list \<Rightarrow> (error + coder \<times> u8 list) option" where
  "encode_all [] c g fp = Some (Inr (g, fp))"
| "encode_all (s # ss) c g fp =
     (case arith_encode s c g fp of
        None \<Rightarrow> None
      | Some (Inl e) \<Rightarrow> Some (Inl e)
      | Some (Inr (g', fp')) \<Rightarrow> encode_all ss c g' fp')"

text \<open>The whole encoder: every symbol, then \<^verbatim>\<open>encoder_close\<close>; the result is the file.\<close>

definition encode_stream :: "u64 list \<Rightarrow> nat list \<Rightarrow> (error + u8 list) option" where
  "encode_stream c xs =
     (case encode_all xs c (coder_init (last c)) [] of
        None \<Rightarrow> None
      | Some (Inl e) \<Rightarrow> Some (Inl e)
      | Some (Inr (g, fp)) \<Rightarrow> Some (Inr (snd (encoder_close g fp))))"

text \<open>\<open>k\<close> calls of \<^verbatim>\<open>arith_decode\<close>, collecting the symbols returned.\<close>

fun decode_n ::
    "nat \<Rightarrow> u64 list \<Rightarrow> coder \<Rightarrow> u8 list \<Rightarrow> (error + nat list \<times> coder \<times> u8 list) option" where
  "decode_n 0 c g fp = Some (Inr ([], g, fp))"
| "decode_n (Suc k) c g fp =
     (case arith_decode c g fp of
        None \<Rightarrow> None
      | Some (Inl e) \<Rightarrow> Some (Inl e)
      | Some (Inr (v, g', fp')) \<Rightarrow>
          (case decode_n k c g' fp' of
             None \<Rightarrow> None
           | Some (Inl e) \<Rightarrow> Some (Inl e)
           | Some (Inr (vs, g'', fp'')) \<Rightarrow> Some (Inr (v # vs, g'', fp''))))"

text \<open>The whole decoder: \<^verbatim>\<open>decoder_start\<close>, then \<open>k\<close> symbols.\<close>

definition decode_stream :: "u64 list \<Rightarrow> nat \<Rightarrow> u8 list \<Rightarrow> (error + nat list) option" where
  "decode_stream c k fp =
     (case decoder_start (coder_init (last c)) fp of
        (g, fp') \<Rightarrow>
          (case decode_n k c g fp' of
             None \<Rightarrow> None
           | Some (Inl e) \<Rightarrow> Some (Inl e)
           | Some (Inr (vs, g', fp'')) \<Rightarrow> Some (Inr vs)))"

section \<open>The encode tool, encoder.c\<close>

text \<open>
  A 32-bit float is modelled by its numerical value in a linear order \<open>'f\<close>; the
  comparisons \<^verbatim>\<open><=\<close> and \<^verbatim>\<open><\<close> of the C code are those of the order (NaN is not
  modelled). How four bytes of a file denote a float is the parameter \<open>fl\<close>.
\<close>

text \<open>
  \<^verbatim>\<open>fread(ptr, sz, nmemb, fi)\<close>: the number of whole items of \<open>sz\<close> bytes read, the bytes stored,
  and the rest of the file.
\<close>

definition fread :: "nat \<Rightarrow> nat \<Rightarrow> u8 list \<Rightarrow> nat \<times> u8 list \<times> u8 list" where
  "fread sz nmemb fi =
     (let nbytes = min (length fi) (sz * nmemb)
      in (nbytes div sz, take nbytes fi, drop nbytes fi))"

text \<open>
  The binary search of encoder.c lines 64 to 75. \<open>lo\<close>, \<open>hi\<close> and \<open>md\<close> are \<^verbatim>\<open>int\<close>s.
\<close>

partial_function (option) bin_search :: "'f::linorder list \<Rightarrow> 'f \<Rightarrow> int \<Rightarrow> int \<Rightarrow> int option" where
  "bin_search U f lo hi =
     (if lo < hi
      then (let md = to_int (lo + c_div (to_int (hi - lo)) 2)
            in if f \<le> U ! nat md then bin_search U f lo md
               else bin_search U f (to_int (md + 1)) hi)
      else Some lo)"

declare bin_search.simps [code]

lemma fread_float_shorter:
  "(1, y) = fread 4 1 fi \<Longrightarrow> (fbytes, fi') = y \<Longrightarrow> length fi' < length fi"
  by (cases "length fi < 4") (auto simp: fread_def Let_def min_def split: if_splits)

text \<open>
  The loop of lines 59 to 85: one float is read, searched for, and its bin number coded.
  The loop ends at the first \<^verbatim>\<open>fread\<close> that does not deliver a whole float.
  \<^verbatim>\<open>hi = num_bins-1\<close> assigns a \<^verbatim>\<open>size_t\<close> to an \<^verbatim>\<open>int\<close>; a negative \<open>lo\<close> would index \<open>U\<close>
  before its first entry.
\<close>

function encode_floats ::
    "(u8 list \<Rightarrow> 'f::linorder) \<Rightarrow> 'f list \<Rightarrow> u64 list \<Rightarrow> coder \<Rightarrow> u8 list \<Rightarrow> u8 list
       \<Rightarrow> (error + coder \<times> u8 list) option" where
  "encode_floats fl U c g fo fi =
     (case fread 4 1 fi of
        (k, fbytes, fi') \<Rightarrow>
          if k = 1
          then (let f = fl fbytes
                in case bin_search U f 0 (to_int (int (length U) - 1)) of
                     None \<Rightarrow> None
                   | Some k \<Rightarrow>
                       if k < 0 then Some (Inl OutOfBounds)
                       else if \<not> (nat k = 0 \<or> U ! (nat k - 1) < f) then Some (Inl (AssertFail 77))
                       else if \<not> nat k < length U then Some (Inl OutOfBounds)
                       else if \<not> f \<le> U ! nat k then Some (Inl (AssertFail 78))
                       else (case arith_encode (nat k) c g fo of
                               None \<Rightarrow> None
                             | Some (Inl e) \<Rightarrow> Some (Inl e)
                             | Some (Inr (g', fo')) \<Rightarrow> encode_floats fl U c g' fo' fi'))
          else Some (Inr (g, fo)))"
  by pat_completeness auto
termination
  apply (relation "measure (\<lambda>(fl, U, c, g, fo, fi). length fi)")
   apply simp
  apply (simp only: in_measure prod.case)
  apply (erule (1) fread_float_shorter)
  done

text \<open>
  \<^verbatim>\<open>main\<close> of encoder.c after the bins file has been read into \<open>U\<close> and the cumulative
  frequencies \<open>c\<close>. \<^verbatim>\<open>head\<close> is a zeroed global of \<open>HEADER + 1\<close> chars; the result is the
  output file.
\<close>

definition encoder_main ::
    "(u8 list \<Rightarrow> 'f::linorder) \<Rightarrow> 'f list \<Rightarrow> u64 list \<Rightarrow> u8 list \<Rightarrow> (error + u8 list) option" where
  "encoder_main fl U c fi =
     (case fread 1 HEADER fi of
        (k, hbytes, fi') \<Rightarrow>
          if k \<noteq> 1 then Some (Inl ReadError)
          else (let head = hbytes @ replicate (HEADER + 1 - length hbytes) 0;
                    fo = take HEADER head
                in case encode_floats fl U c (coder_init (last c)) fo fi' of
                     None \<Rightarrow> None
                   | Some (Inl e) \<Rightarrow> Some (Inl e)
                   | Some (Inr (g, fo')) \<Rightarrow> Some (Inr (snd (encoder_close g fo')))))"

section \<open>The quantizer, quantize.c\<close>

subsection \<open>Choosing the binning method\<close>

text \<open>The functions a pointer of \<^verbatim>\<open>bin_funcs\<close> can point to.\<close>

datatype bin_func =
  Bins_fixed_domain | Bins_fixed_range | Bins_geometric_domain | Bins_fixed_skinny

definition NUM_METHODS :: nat where "NUM_METHODS = 4"

definition labels :: "string list" where
  "labels = [[], ''FD'', ''FR'', ''GD'', ''CFR'', []]"

definition bin_funcs :: "bin_func list" where
  "bin_funcs = [Bins_fixed_domain, Bins_fixed_range, Bins_geometric_domain, Bins_fixed_skinny]"

text \<open>
  What \<^verbatim>\<open>main\<close> does with \<^verbatim>\<open>bintype\<close>: the range check of line 360, the label it prints
  (line 377) and the function it calls (line 461), \<^verbatim>\<open>bin_funcs[bintype]\<close>.
\<close>

definition select_method :: "nat \<Rightarrow> error + string \<times> bin_func" where
  "select_method bintype =
     (if bintype < 1 \<or> bintype > NUM_METHODS then Inl ExitFailure
      else if \<not> bintype < length bin_funcs then Inl OutOfBounds
      else Inr (labels ! bintype, bin_funcs ! bintype))"

subsection \<open>Bins of fixed domain\<close>

text \<open>
  \<^verbatim>\<open>bins_fixed_domain(C, num_bins, F, nF)\<close>, lines 74 to 89, computes in \<^verbatim>\<open>size_t\<close> and does
  not read \<open>F\<close>. \<open>fd_step\<close> is the body of its loop: \<^verbatim>\<open>C[i] = C[num_bins-i-1] = step\<close> stores
  into \<^verbatim>\<open>C[num_bins-i-1]\<close> first. \<open>C\<close> is the array as it is when the function is called; the
  result is the array when it returns.
\<close>

definition fd_step :: "u64 \<Rightarrow> u64 \<Rightarrow> nat \<Rightarrow> u64 list \<times> u64 \<Rightarrow> u64 list \<times> u64" where
  "fd_step num_bins step i =
     (\<lambda>(C, sofar). (C[unat (num_bins - of_nat i - 1) := step, i := step], sofar + 2 * step))"

definition bins_fixed_domain :: "u64 list \<Rightarrow> u64 \<Rightarrow> u64 \<Rightarrow> error + u64 list" where
  "bins_fixed_domain C num_bins nF =
     (if num_bins = 0 then Inl DivByZero
      else if length C < unat num_bins then Inl OutOfBounds
      else (let step = nF div num_bins;
                (C1, sofar) = fold (fd_step num_bins step) [0..<unat ((num_bins - 1) div 2)] (C, 0)
            in if num_bins mod 2 = 0
               then (let C2 = C1[unat (num_bins div 2 - 1) := (nF - sofar) div 2]
                     in Inr (C2[unat (num_bins div 2) :=
                                  (nF - sofar) - C2 ! unat (num_bins div 2 - 1)]))
               else Inr (C1[unat (num_bins div 2) := nF - sofar])))"

subsection \<open>Bins of fixed range\<close>

text \<open>
  \<^verbatim>\<open>bins_fixed_range\<close> computes in \<^verbatim>\<open>double\<close>. A double is modelled by the rational number it
  denotes, and \<open>rnd x\<close> is the double nearest to \<open>x\<close>: IEEE 754 binary64, 53 significant
  bits, round to nearest, ties to even. Every operation of the C code on doubles is the
  exact operation followed by \<open>rnd\<close>. Infinities, NaN and subnormal numbers are not
  modelled. A \<^verbatim>\<open>float\<close> is the rational it denotes as well: its conversion to \<^verbatim>\<open>double\<close> is
  exact.

  \<open>bitlen n\<close> is the number of binary digits of \<open>n\<close>, \<open>pow2 e\<close> is \<open>2^e\<close> for an integer \<open>e\<close>, and
  \<open>ilog2 x\<close> is the exponent \<open>e\<close> with \<open>2^e \<le> x < 2^(e+1)\<close> of a positive \<open>x\<close>.
\<close>

function bitlen :: "int \<Rightarrow> int" where
  "bitlen n = (if n \<le> 0 then 0 else bitlen (n div 2) + 1)"
  by pat_completeness auto
termination
  by (relation "measure nat") auto

declare bitlen.simps [simp del]

definition pow2 :: "int \<Rightarrow> rat" where
  "pow2 e = (if 0 \<le> e then 2 ^ nat e else 1 / 2 ^ nat (- e))"

definition ilog2 :: "rat \<Rightarrow> int" where
  "ilog2 x =
     (let (p, q) = quotient_of x;
          e = bitlen p - bitlen q
      in if pow2 e \<le> x then e else e - 1)"

text \<open>The integer nearest to \<open>m\<close>, the even one of two that are equally near.\<close>

definition round_even :: "rat \<Rightarrow> int" where
  "round_even m =
     (let n = \<lfloor>m\<rfloor>; f = m - of_int n
      in if f < 1 / 2 then n else if 1 / 2 < f then n + 1 else if even n then n else n + 1)"

definition rnd :: "rat \<Rightarrow> rat" where
  "rnd x =
     (if x = 0 then 0
      else (let e = ilog2 \<bar>x\<bar> - 52
            in sgn x * of_int (round_even (\<bar>x\<bar> / pow2 e)) * pow2 e))"

text \<open>\<^verbatim>\<open>#define EPS 1e-10\<close>: the double the literal denotes.\<close>

definition EPS :: rat where "EPS = rnd (1 / 10 ^ 10)"

text \<open>
  The inner loop of lines 107 to 110, \<^verbatim>\<open>while (iF < nF && F[iF] < minF + (i+1)*interval)\<close>,
  with the threshold \<open>thr\<close>, which does not change during the loop; \<open>nF\<close> is the length of
  \<open>F\<close>.
\<close>

function fr_count :: "rat list \<Rightarrow> rat \<Rightarrow> nat \<Rightarrow> u64 \<Rightarrow> nat \<times> u64" where
  "fr_count F thr iF ci =
     (if iF < length F \<and> F ! iF < thr then fr_count F thr (Suc iF) (ci + 1) else (iF, ci))"
  by pat_completeness auto
termination
  by (relation "measure (\<lambda>(F, thr, iF, ci). length F - iF)") auto

declare fr_count.simps [simp del]

text \<open>The loop of lines 105 to 111 over the bins; \<^verbatim>\<open>(i+1)\<close> is a \<^verbatim>\<open>size_t\<close> converted to
  \<^verbatim>\<open>double\<close>.\<close>

function fr_loop :: "u64 list \<Rightarrow> nat \<Rightarrow> rat list \<Rightarrow> rat \<Rightarrow> rat \<Rightarrow> nat \<Rightarrow> nat \<Rightarrow> u64 list" where
  "fr_loop C num_bins F minF interval i iF =
     (if i < num_bins
      then (let (iF', ci) = fr_count F (rnd (minF + rnd (rnd (of_nat (i + 1)) * interval))) iF 0
            in fr_loop (C[i := ci]) num_bins F minF interval (Suc i) iF')
      else C)"
  by pat_completeness auto
termination
  by (relation "measure (\<lambda>(C, num_bins, F, minF, interval, i, iF). num_bins - i)") auto

declare fr_loop.simps [simp del]

text \<open>
  \<^verbatim>\<open>bins_fixed_range(C, num_bins, F, nF)\<close>, lines 94 to 113. \<open>C\<close> is the array as it is when
  the function is called; the result is the array when it returns.
\<close>

definition bins_fixed_range :: "u64 list \<Rightarrow> nat \<Rightarrow> rat list \<Rightarrow> error + u64 list" where
  "bins_fixed_range C num_bins F =
     (if F = [] \<or> length C < num_bins then Inl OutOfBounds
      else (let minF = rnd (F ! 0 - EPS);
                maxF = rnd (F ! (length F - 1) + EPS);
                interval = rnd (rnd (maxF - minF) / rnd (of_nat num_bins))
            in Inr (fr_loop C num_bins F minF interval 0 0)))"

subsection \<open>Writing the bins file\<close>

text \<open>
  The loop of lines 312 to 314, collecting the values \<^verbatim>\<open>F[j]\<close> it adds up, with
  \<^verbatim>\<open>size_t\<close> counters.
\<close>

function sum_loop :: "'f list \<Rightarrow> u64 \<Rightarrow> u64 \<Rightarrow> 'f list \<Rightarrow> error + 'f list" where
  "sum_loop F j e acc =
     (if j < e
      then (if unat j < length F then sum_loop F (j + 1) e (acc @ [F ! unat j])
            else Inl OutOfBounds)
      else Inr acc)"
  by pat_completeness auto
termination
  by (relation "measure (\<lambda>(F, j, e, acc). unat e - unat j)") (simp, simp, unat_arith)

text \<open>
  The table loop of \<^verbatim>\<open>write_bins\<close>, lines 309 to 323. The representative of a
  non-empty bin is the mean of its values, computed in floating point: the parameter
  \<open>rep\<close> maps the values added up to the float written. The index
  \<^verbatim>\<open>strt+C[i]-1\<close> is computed in \<^verbatim>\<open>size_t\<close>.
\<close>

fun write_bins_loop ::
    "('f list \<Rightarrow> 'f) \<Rightarrow> 'f list \<Rightarrow> u64 \<Rightarrow> u64 list \<Rightarrow> error + ('f \<times> 'f) list \<times> u64" where
  "write_bins_loop rep F strt [] = Inr ([], strt)"
| "write_bins_loop rep F strt (Ci # Cs) =
     (case (if Ci > 0
            then (case sum_loop F strt (strt + Ci) [] of
                    Inl e \<Rightarrow> Inl e
                  | Inr vs \<Rightarrow> Inr (rep vs))
            else (if unat (strt + Ci - 1) < length F then Inr (F ! unat (strt + Ci - 1))
                  else Inl OutOfBounds)) of
        Inl e \<Rightarrow> Inl e
      | Inr binrep \<Rightarrow>
          if \<not> unat (strt + Ci - 1) < length F then Inl OutOfBounds
          else (case write_bins_loop rep F (strt + Ci) Cs of
                  Inl e \<Rightarrow> Inl e
                | Inr (rows, strt') \<Rightarrow> Inr ((F ! unat (strt + Ci - 1), binrep) # rows, strt')))"

text \<open>
  \<^verbatim>\<open>write_bins\<close>: the two leading \<^verbatim>\<open>size_t\<close> values, the table of (upper bound,
  representative) pairs, the check \<^verbatim>\<open>assert(strt==nF)\<close>, and the frequencies.
\<close>

definition write_bins ::
    "('f list \<Rightarrow> 'f) \<Rightarrow> u64 list \<Rightarrow> 'f list \<Rightarrow> error + u64 \<times> u64 \<times> ('f \<times> 'f) list \<times> u64 list" where
  "write_bins rep C F =
     (case write_bins_loop rep F 0 C of
        Inl e \<Rightarrow> Inl e
      | Inr (rows, strt) \<Rightarrow>
          if strt \<noteq> of_nat (length F) then Inl (AssertFail 326)
          else Inr (2, of_nat (length C), rows, C))"


text \<open>
  The position in \<open>F\<close> at which bin \<open>k\<close> starts: the sum of the frequencies before it
  (the value of \<^verbatim>\<open>strt\<close> when the table loop reaches \<open>i = k\<close>).
\<close>

definition bin_start :: "u64 list \<Rightarrow> nat \<Rightarrow> nat" where
  "bin_start C k = sum_list (map unat (take k C))"

section \<open>Quantities of the coder used in the proofs\<close>

text \<open>The number a list of bytes denotes, most significant byte first.\<close>

definition val_bytes :: "u8 list \<Rightarrow> nat" where
  "val_bytes bs = foldl (\<lambda>a b. a * 256 + unat b) 0 bs"

text \<open>The bytes the encoder holds back: the staged byte, unless \<open>first\<close>, and the run of ff bytes.\<close>

definition pending :: "coder \<Rightarrow> u8 list" where
  "pending g = (if first g then [] else [last_non_ff_byte g]) @
               replicate (unat (num_ff_bytes g)) FULLBYTE"

text \<open>The lower end of the coding interval as one number: the bytes written and held,
  followed by the 56 bits of \<open>L\<close>.\<close>

definition low_bound :: "coder \<Rightarrow> u8 list \<Rightarrow> nat" where
  "low_bound g fp = val_bytes (fp @ pending g) * 2 ^ 56 + unat (L g)"

text \<open>The state after the coding step and before the carry block: \<open>L\<close> may have
  overflowed by one bit, the interval still ends inside the range the bytes so far allow,
  nothing is written before the first byte is staged, and a held ff byte leaves no room
  for a carry.\<close>

definition pre_inv :: "coder \<Rightarrow> u8 list \<Rightarrow> bool" where
  "pre_inv g fp \<longleftrightarrow>
     0 < unat (R g) \<and> unat (R g) < 2 ^ 56 \<and> unat (L g) + unat (R g) < 2 ^ 57 \<and>
     low_bound g fp + unat (R g) \<le> 256 ^ length (fp @ pending g) * 2 ^ 56 \<and>
     (first g \<longrightarrow> fp = []) \<and>
     (\<not> first g \<and> last_non_ff_byte g = 255 \<longrightarrow> unat (L g) + unat (R g) \<le> 2 ^ 56)"

text \<open>The same with \<open>L\<close> back below \<open>2^56\<close>: the state of the encoder between the carry
  block and the end of a call.\<close>

definition enc_inv :: "coder \<Rightarrow> u8 list \<Rightarrow> bool" where
  "enc_inv g fp \<longleftrightarrow> pre_inv g fp \<and> unat (L g) < 2 ^ 56"

text \<open>The cumulative frequency below symbol \<open>s\<close>: \<^verbatim>\<open>low\<close> of the C code.\<close>

definition sym_low :: "u64 list \<Rightarrow> nat \<Rightarrow> u64" where
  "sym_low c s = (if s = 0 then 0 else c ! (s - 1))"

text \<open>A table of cumulative frequencies with its total, at most \<open>MINR\<close>.\<close>

definition table_ok :: "u64 list \<Rightarrow> u64 \<Rightarrow> bool" where
  "table_ok c t \<longleftrightarrow> c \<noteq> [] \<and> sorted c \<and> last c = t \<and> t \<le> MINR"

text \<open>A symbol of the table with non-zero frequency.\<close>

definition sym_ok :: "u64 list \<Rightarrow> nat \<Rightarrow> bool" where
  "sym_ok c s \<longleftrightarrow> s < length c \<and> sym_low c s < c ! s"

text \<open>What one coding step adds to \<open>L\<close>, as a natural number.\<close>

definition step_low :: "u64 list \<Rightarrow> nat \<Rightarrow> nat \<Rightarrow> nat \<Rightarrow> nat" where
  "step_low c s T r = unat (sym_low c s) * (r div T)"

text \<open>The new \<open>R\<close> of one coding step, as a natural number.\<close>

definition step_range :: "u64 list \<Rightarrow> nat \<Rightarrow> nat \<Rightarrow> nat \<Rightarrow> nat" where
  "step_range c s T r =
     (if unat (c ! s) < T then (unat (c ! s) - unat (sym_low c s)) * (r div T)
      else r - unat (sym_low c s) * (r div T))"

text \<open>\<open>nshift r k\<close>: the loop \<^verbatim>\<open>while (R < PART)\<close> started with \<open>R = r\<close> runs exactly \<open>k\<close> times.\<close>

definition nshift :: "nat \<Rightarrow> nat \<Rightarrow> bool" where
  "nshift r k \<longleftrightarrow> (\<forall>j<k. r * 256 ^ j < 2 ^ 48) \<and> 2 ^ 48 \<le> r * 256 ^ k"

text \<open>What holds of \<open>L\<close>, \<open>R\<close> and the held byte between two calls of \<^verbatim>\<open>arith_encode\<close>.\<close>

definition lr_inv :: "coder \<Rightarrow> bool" where
  "lr_inv g \<longleftrightarrow>
     unat (L g) < 2 ^ 56 \<and> 0 < unat (R g) \<and> unat (R g) < 2 ^ 56 \<and>
     (\<not> first g \<and> last_non_ff_byte g = 255 \<longrightarrow> unat (L g) + unat (R g) \<le> 2 ^ 56)"

text \<open>\<open>R\<close> lies between \<open>PART\<close> and \<open>FULL\<close>, both included.\<close>

definition R_ok :: "coder \<Rightarrow> bool" where
  "R_ok g \<longleftrightarrow> PART \<le> R g \<and> R g \<le> FULL"

text \<open>\<^verbatim>\<open>target\<close> of \<^verbatim>\<open>arith_decode\<close>, after the adjustment of line 224.\<close>

definition dec_target :: "coder \<Rightarrow> u64" where
  "dec_target g =
     (if D g div (R g div total_c g) \<ge> total_c g then total_c g - 1
      else D g div (R g div total_c g))"

text \<open>The state of \<^verbatim>\<open>arith_decode\<close> after lines 254 to 265, for the decoded symbol \<open>v\<close>.\<close>

definition dec_update :: "u64 list \<Rightarrow> coder \<Rightarrow> nat \<Rightarrow> coder" where
  "dec_update c g v =
     (if c ! v < total_c g
      then g\<lparr>D := D g - sym_low c v * (R g div total_c g),
              R := (c ! v - sym_low c v) * (R g div total_c g)\<rparr>
      else g\<lparr>D := D g - sym_low c v * (R g div total_c g),
              R := R g - sym_low c v * (R g div total_c g)\<rparr>)"

text \<open>The state the encoder is in after the symbols 0, 1, 1, 1, 1, 1, 1, 1 with the
  frequencies 255 and 1, as a function of the number \<open>n\<close> of ff bytes it holds back: the
  coding interval ends exactly at \<open>2^56\<close>.\<close>

definition ff_state :: "u32 \<Rightarrow> coder" where
  "ff_state n =
     \<lparr>total_c = 256, L = 281474976710656, R = 71776119061217280, last_non_ff_byte = 0,
      num_ff_bytes = n, first = False, bytes_out = of_nat HEADER + 6, D = 0\<rparr>"

text \<open>\<open>renorm_wraps g fp\<close>: the loop \<^verbatim>\<open>while (R < PART)\<close>, started in \<open>g\<close>, executes
  \<^verbatim>\<open>num_ff_bytes++\<close> (line 165) with the counter at \<open>2^32 - 1\<close>, its largest value, so that
  the counter wraps to 0.\<close>

partial_function (option) renorm_wraps :: "coder \<Rightarrow> u8 list \<Rightarrow> bool option" where
  "renorm_wraps g fp =
     (if R g < PART
      then (if (ucast (drop_bit (BBITS - 8) (L g)) :: u8) = FULLBYTE \<and> num_ff_bytes g = - 1
            then Some True
            else renorm_wraps (fst (renorm_body g fp)) (snd (renorm_body g fp)))
      else Some False)"

declare renorm_wraps.simps [code]

text \<open>\<open>encode_wraps xs c g fp\<close>: while the symbols \<open>xs\<close> are coded from the state \<open>g\<close>, the
  counter \<^verbatim>\<open>num_ff_bytes\<close> wraps in one of the calls of \<^verbatim>\<open>arith_encode\<close>.\<close>

fun encode_wraps :: "nat list \<Rightarrow> u64 list \<Rightarrow> coder \<Rightarrow> u8 list \<Rightarrow> bool" where
  "encode_wraps [] c g fp = False"
| "encode_wraps (s # ss) c g fp =
     (case arith_encode s c g fp of
        Some (Inr (g', fp')) \<Rightarrow>
          renorm_wraps (fst (carry_step (coding_step s c g) fp))
                       (snd (carry_step (coding_step s c g) fp)) = Some True \<or>
          encode_wraps ss c g' fp'
      | _ \<Rightarrow> False)"

text \<open>The search of \<^verbatim>\<open>arith_decode\<close> on the integers, where nothing overflows. It is
  what the search on \<^verbatim>\<open>int\<close>s computes as long as \<open>0 \<le> lo\<close> and \<open>hi < 2^31\<close>.\<close>

function dec_search_ideal :: "u64 list \<Rightarrow> u64 \<Rightarrow> int \<Rightarrow> int \<Rightarrow> int" where
  "dec_search_ideal c target lo hi =
     (if lo < hi
      then (let v = lo + (hi - lo) div 2
            in if c ! nat v \<le> target then dec_search_ideal c target (v + 1) hi
               else dec_search_ideal c target lo v)
      else lo)"
  by pat_completeness auto
termination
  by (relation "measure (\<lambda>(c, target, lo, hi). nat (hi - lo))") auto

text \<open>The search of encoder.c on the integers.\<close>

function bin_search_ideal :: "'f::linorder list \<Rightarrow> 'f \<Rightarrow> int \<Rightarrow> int \<Rightarrow> int" where
  "bin_search_ideal U f lo hi =
     (if lo < hi
      then (let md = lo + (hi - lo) div 2
            in if f \<le> U ! nat md then bin_search_ideal U f lo md
               else bin_search_ideal U f (md + 1) hi)
      else lo)"
  by pat_completeness auto
termination
  by (relation "measure (\<lambda>(U, f, lo, hi). nat (hi - lo))") auto

section \<open>The coder: arithmetic and invariants\<close>

lemma val_bytes_Nil [simp]: "val_bytes [] = 0"
  by (simp add: val_bytes_def)

lemma val_bytes_snoc [simp]: "val_bytes (bs @ [b]) = val_bytes bs * 256 + unat b"
  by (simp add: val_bytes_def)

lemma val_bytes_append: "val_bytes (xs @ ys) = val_bytes xs * 256 ^ length ys + val_bytes ys"
proof (induction ys rule: rev_induct)
  case Nil
  then show ?case by simp
next
  case (snoc y ys)
  have "val_bytes (xs @ ys @ [y]) = val_bytes ((xs @ ys) @ [y])" by simp
  also have "\<dots> = val_bytes (xs @ ys) * 256 + unat y" by (rule val_bytes_snoc)
  finally show ?case using snoc by (simp add: algebra_simps)
qed

lemma val_bytes_replicate_ff: "val_bytes (replicate n 255) + 1 = 256 ^ n"
proof (induction n)
  case 0
  then show ?case by simp
next
  case (Suc n)
  have "val_bytes (replicate (Suc n) 255) = val_bytes (replicate n 255 @ [255])"
    by (simp add: replicate_append_same)
  then show ?case using Suc by simp
qed

lemma val_bytes_replicate_0: "val_bytes (replicate n 0) = 0"
proof (induction n)
  case 0
  then show ?case by simp
next
  case (Suc n)
  have "val_bytes (replicate (Suc n) 0) = val_bytes (replicate n 0 @ [0])"
    by (simp add: replicate_append_same)
  then show ?case using Suc by simp
qed

lemma val_bytes_lt: "val_bytes bs < 256 ^ length bs"
proof (induction bs rule: rev_induct)
  case Nil
  then show ?case by simp
next
  case (snoc b bs)
  have "unat b < 256" using unsigned_less [of b] by simp
  with snoc show ?case by simp
qed

lemma val_bytes_take_div:
  "k \<le> length bs \<Longrightarrow> val_bytes (take k bs) = val_bytes bs div 256 ^ (length bs - k)"
proof -
  assume k: "k \<le> length bs"
  have "val_bytes bs = val_bytes (take k bs) * 256 ^ length (drop k bs) + val_bytes (drop k bs)"
    by (metis append_take_drop_id val_bytes_append)
  moreover have "val_bytes (drop k bs) < 256 ^ length (drop k bs)" by (rule val_bytes_lt)
  ultimately show ?thesis by simp
qed

lemma flush_ff_loop_eq:
  "flush_ff_loop g fp =
     (g\<lparr>num_ff_bytes := 0, bytes_out := bytes_out g + of_nat (unat (num_ff_bytes g))\<rparr>,
      fp @ replicate (unat (num_ff_bytes g)) FULLBYTE)"
proof (induction g fp rule: flush_ff_loop.induct)
  case (1 g fp)
  show ?case
  proof (cases "num_ff_bytes g = 0")
    case True
    then show ?thesis by (subst flush_ff_loop.simps) simp
  next
    case False
    then have u: "unat (num_ff_bytes g) = Suc (unat (num_ff_bytes g - 1))"
      by (simp add: unat_minus_one unat_gt_0)
    show ?thesis
      using False "1.IH" [OF False]
      by (subst flush_ff_loop.simps) (simp add: u replicate_append_same [symmetric])
  qed
qed

lemma carry_loop_eq:
  "carry_loop g fp =
     (if num_ff_bytes g = 0 then (g, fp)
      else (g\<lparr>num_ff_bytes := 0, last_non_ff_byte := ZERO,
               bytes_out := bytes_out g + of_nat (unat (num_ff_bytes g))\<rparr>,
            fp @ last_non_ff_byte g # replicate (unat (num_ff_bytes g) - 1) ZERO))"
proof (induction g fp rule: carry_loop.induct)
  case (1 g fp)
  show ?case
  proof (cases "num_ff_bytes g = 0")
    case True
    then show ?thesis by (subst carry_loop.simps) simp
  next
    case False
    then have pos: "0 < num_ff_bytes g" by (simp add: word_greater_zero_iff)
    have u: "unat (num_ff_bytes g) = Suc (unat (num_ff_bytes g - 1))"
      using False by (simp add: unat_minus_one unat_gt_0)
    show ?thesis
    proof (cases "num_ff_bytes g - 1 = 0")
      case True
      then show ?thesis
        using pos False "1.IH" [OF pos]
        by (subst carry_loop.simps) (simp add: u)
    next
      case nz: False
      then have "unat (num_ff_bytes g - 1) = Suc (unat (num_ff_bytes g - 1) - Suc 0)"
        by (simp add: unat_gt_0)
      then have r: "ZERO # replicate (unat (num_ff_bytes g - 1) - Suc 0) ZERO =
                    replicate (unat (num_ff_bytes g - 1)) ZERO"
        by (metis replicate_Suc)
      show ?thesis
        using pos False nz "1.IH" [OF pos]
        by (subst carry_loop.simps) (simp add: u r)
    qed
  qed
qed

lemma carry_step_eq:
  "FULL < L g \<Longrightarrow>
   carry_step g fp =
     (if num_ff_bytes g = 0
      then (g\<lparr>last_non_ff_byte := last_non_ff_byte g + 1, L := L g AND FULL\<rparr>, fp)
      else (g\<lparr>last_non_ff_byte := 0, L := L g AND FULL, num_ff_bytes := 0,
               bytes_out := bytes_out g + of_nat (unat (num_ff_bytes g))\<rparr>,
            fp @ (last_non_ff_byte g + 1) # replicate (unat (num_ff_bytes g) - 1) 0))"
  unfolding carry_step_def by (subst carry_loop_eq) (simp add: ZERO_def)

lemma unat_FULL: "unat FULL = 2 ^ 56 - 1"
  by (simp add: FULL_def BBITS_def BBYTES_def)

lemma unat_PART: "unat PART = 2 ^ 48"
  by (simp add: PART_def BBITS_def BBYTES_def)

lemma unat_MINR: "unat MINR = 2 ^ 41"
  by (simp add: MINR_def BBITS_def BBYTES_def)

lemma FULL_mask: "FULL = mask 56"
  by (simp add: FULL_def BBITS_def BBYTES_def mask_eq_exp_minus_1)

lemma unat_and_FULL: "unat (w AND FULL) = unat w mod 2 ^ 56"
proof -
  have "w AND FULL = take_bit 56 w" by (simp only: FULL_mask take_bit_eq_mask)
  then have "unat (w AND FULL) = take_bit 56 (unat w)" by (simp only: unsigned_take_bit_eq)
  then show ?thesis by (simp only: take_bit_eq_mod)
qed

lemma unat_shift8: "unat (push_bit 8 (w::u64)) = (unat w * 256) mod 2 ^ 64"
  by (simp add: push_bit_eq_mult unat_word_ariths)

lemma unat_top_byte:
  "unat (ucast (drop_bit (BBITS - 8) (w::u64)) :: u8) = (unat w div 2 ^ 48) mod 256"
  by (simp add: BBITS_def BBYTES_def unsigned_ucast_eq unsigned_drop_bit_eq drop_bit_eq_div
      take_bit_eq_mod unat_div)

lemma FULL_less_iff: "FULL < w \<longleftrightarrow> 2 ^ 56 \<le> unat w"
  unfolding word_less_nat_alt unat_FULL by auto

lemma less_PART_iff: "w < PART \<longleftrightarrow> unat w < 2 ^ 48"
  by (simp add: word_less_nat_alt unat_PART)

lemma PART_le_iff: "PART \<le> w \<longleftrightarrow> 2 ^ 48 \<le> unat w"
  by (simp add: word_le_nat_alt unat_PART)

lemma step_arith:
  fixes lo hi T r :: nat
  assumes "lo < hi" and "hi \<le> T" and "T < r"
  shows "0 < (if hi < T then (hi - lo) * (r div T) else r - lo * (r div T))"
    and "lo * (r div T) + (if hi < T then (hi - lo) * (r div T) else r - lo * (r div T)) \<le> r"
proof -
  define sc where "sc = r div T"
  have T: "0 < T" using assms by simp
  have sc: "1 \<le> sc" using assms T by (simp add: sc_def Suc_le_eq div_greater_zero_iff)
  have Tsc: "T * sc \<le> r" by (simp add: sc_def)
  have "hi * sc \<le> T * sc" using assms(2) by simp
  then have hisc: "hi * sc \<le> r" using Tsc by (rule order_trans)
  have split: "lo * sc + (hi - lo) * sc = hi * sc"
    using assms(1) by (simp add: diff_mult_distrib)
  have "lo + 1 \<le> T" using assms by simp
  then have "(lo + 1) * sc \<le> T * sc" by (rule mult_le_mono1)
  then have top: "lo * sc + sc \<le> r" using Tsc by (simp add: add_mult_distrib)
  have pos: "0 < (hi - lo) * sc" using assms(1) sc by simp
  show "0 < (if hi < T then (hi - lo) * (r div T) else r - lo * (r div T))"
    using pos top sc unfolding sc_def [symmetric] by auto
  show "lo * (r div T) + (if hi < T then (hi - lo) * (r div T) else r - lo * (r div T)) \<le> r"
    using split hisc top unfolding sc_def [symmetric] by auto
qed

lemma sym_bounds:
  assumes "table_ok c t" and "sym_ok c s"
  shows "unat (sym_low c s) < unat (c ! s)" and "unat (c ! s) \<le> unat t" and "unat t \<le> 2 ^ 41"
proof -
  show "unat (sym_low c s) < unat (c ! s)"
    using assms(2) by (simp add: sym_ok_def word_less_nat_alt)
  have s: "s < length c" using assms(2) by (simp add: sym_ok_def)
  have "c ! s \<le> c ! (length c - 1)"
    using assms(1) s by (intro sorted_nth_mono) (auto simp: table_ok_def)
  also have "\<dots> = t" using assms(1) by (auto simp: table_ok_def last_conv_nth)
  finally show "unat (c ! s) \<le> unat t" by (simp add: word_le_nat_alt)
  show "unat t \<le> 2 ^ 41"
    using assms(1) by (simp add: table_ok_def word_le_nat_alt unat_MINR)
qed

lemma step_range_facts:
  assumes "table_ok c t" and "sym_ok c s" and "unat t < r"
  shows "0 < step_range c s (unat t) r"
    and "step_low c s (unat t) r + step_range c s (unat t) r \<le> r"
  using step_arith [OF sym_bounds(1,2) [OF assms(1,2)] assms(3)]
  by (simp_all add: step_range_def step_low_def)

lemma coding_step_fields:
  "total_c (coding_step s c g) = total_c g" "first (coding_step s c g) = first g"
  "last_non_ff_byte (coding_step s c g) = last_non_ff_byte g"
  "num_ff_bytes (coding_step s c g) = num_ff_bytes g" "D (coding_step s c g) = D g"
  "pending (coding_step s c g) = pending g"
  by (simp_all add: coding_step_def Let_def pending_def)

lemma coding_step_mul:
  assumes tab: "table_ok c (total_c g)" and sym: "sym_ok c s" and gt: "total_c g < R g"
  shows "unat (sym_low c s * (R g div total_c g)) = step_low c s (unat (total_c g)) (unat (R g))"
    and "step_low c s (unat (total_c g)) (unat (R g)) \<le> unat (R g)"
proof -
  define T where "T = unat (total_c g)"
  define rr where "rr = unat (R g)"
  define lo where "lo = unat (sym_low c s)"
  define sc where "sc = rr div T"
  have Tr: "T < rr" using gt by (simp add: T_def rr_def word_less_nat_alt)
  have "step_low c s T rr + step_range c s T rr \<le> rr"
    using step_range_facts(2) [OF tab sym] Tr by (simp add: T_def)
  then have losc: "lo * sc \<le> rr" by (simp add: step_low_def lo_def sc_def)
  then show "step_low c s (unat (total_c g)) (unat (R g)) \<le> unat (R g)"
    by (simp add: step_low_def lo_def sc_def T_def rr_def)
  have usc: "unat (R g div total_c g) = sc"
    by (simp add: unat_div sc_def rr_def T_def)
  have "rr < 2 ^ LENGTH(64)" using unsigned_less [of "R g"] by (simp add: rr_def)
  then have "unat (sym_low c s) * unat (R g div total_c g) < 2 ^ LENGTH(64)"
    using losc by (simp add: usc lo_def)
  then show "unat (sym_low c s * (R g div total_c g)) =
             step_low c s (unat (total_c g)) (unat (R g))"
    by (simp add: unat_mult_lem [THEN iffD1] usc lo_def step_low_def sc_def rr_def T_def)
qed

lemma coding_step_L:
  assumes tab: "table_ok c (total_c g)" and sym: "sym_ok c s" and gt: "total_c g < R g"
    and r: "unat (R g) < 2 ^ 56" and l: "unat (L g) < 2 ^ 56"
  shows "unat (L (coding_step s c g)) = unat (L g) + step_low c s (unat (total_c g)) (unat (R g))"
proof -
  note m = coding_step_mul [OF tab sym gt]
  have "unat (L g) + unat (sym_low c s * (R g div total_c g)) < 2 ^ LENGTH(64)"
    using m r l by simp
  then have "unat (L g + sym_low c s * (R g div total_c g)) =
             unat (L g) + step_low c s (unat (total_c g)) (unat (R g))"
    by (simp add: unat_add_lem [THEN iffD1] m(1))
  moreover have "(if s = 0 then 0 else c ! (s - 1)) = sym_low c s" by (simp add: sym_low_def)
  ultimately show ?thesis by (simp add: coding_step_def Let_def)
qed

lemma coding_step_R:
  assumes tab: "table_ok c (total_c g)" and sym: "sym_ok c s" and gt: "total_c g < R g"
  shows "unat (R (coding_step s c g)) = step_range c s (unat (total_c g)) (unat (R g))"
proof -
  define T where "T = unat (total_c g)"
  define rr where "rr = unat (R g)"
  define lo where "lo = unat (sym_low c s)"
  define hi where "hi = unat (c ! s)"
  define sc where "sc = rr div T"
  note m = coding_step_mul [OF tab sym gt]
  have b: "lo < hi" "hi \<le> T"
    using sym_bounds [OF tab sym] by (simp_all add: lo_def hi_def T_def)
  have usc: "unat (R g div total_c g) = sc"
    by (simp add: unat_div sc_def rr_def T_def)
  have lowform: "(if s = 0 then 0 else c ! (s - 1)) = sym_low c s" by (simp add: sym_low_def)
  have hiT: "c ! s < total_c g \<longleftrightarrow> hi < T" by (simp add: word_less_nat_alt hi_def T_def)
  have usub: "unat (c ! s - sym_low c s) = hi - lo"
    using b(1) by (simp add: unat_sub word_le_nat_alt hi_def lo_def)
  have umul2: "unat ((c ! s - sym_low c s) * (R g div total_c g)) = (hi - lo) * sc"
  proof -
    have "(hi - lo) * sc \<le> hi * sc" by simp
    also have "\<dots> \<le> T * sc" using b(2) by simp
    also have "\<dots> \<le> rr" by (simp add: sc_def)
    also have "rr < 2 ^ LENGTH(64)" using unsigned_less [of "R g"] by (simp add: rr_def)
    finally have "unat (c ! s - sym_low c s) * unat (R g div total_c g) < 2 ^ LENGTH(64)"
      by (simp add: usub usc)
    then show ?thesis by (simp add: unat_mult_lem [THEN iffD1] usub usc)
  qed
  have usub2: "unat (R g - sym_low c s * (R g div total_c g)) = rr - lo * sc"
    using m by (simp add: unat_sub word_le_nat_alt rr_def step_low_def lo_def sc_def T_def)
  show ?thesis
    using umul2 usub2 hiT
    by (simp add: coding_step_def Let_def lowform step_range_def sc_def rr_def T_def lo_def hi_def)
qed

lemma coding_step_nat:
  assumes tab: "table_ok c (total_c g)" and sym: "sym_ok c s" and gt: "total_c g < R g"
    and r: "unat (R g) < 2 ^ 56" and l: "unat (L g) < 2 ^ 56"
  shows "unat (L (coding_step s c g)) = unat (L g) + step_low c s (unat (total_c g)) (unat (R g))"
    and "unat (R (coding_step s c g)) = step_range c s (unat (total_c g)) (unat (R g))"
  using coding_step_L [OF assms] coding_step_R [OF tab sym gt] by simp_all

lemma nshift_0: "nshift r 0 \<longleftrightarrow> 2 ^ 48 \<le> r"
  by (simp add: nshift_def)

lemma nshift_Suc: "nshift r (Suc k) \<longleftrightarrow> r < 2 ^ 48 \<and> nshift (r * 256) k"
proof -
  have "(\<forall>j<Suc k. r * 256 ^ j < 2 ^ 48) \<longleftrightarrow> r < 2 ^ 48 \<and> (\<forall>j<k. r * 256 * 256 ^ j < 2 ^ 48)"
  proof
    assume a: "\<forall>j<Suc k. r * 256 ^ j < 2 ^ 48"
    then have "r * 256 ^ 0 < 2 ^ 48" by blast
    moreover have "\<forall>j<k. r * 256 * 256 ^ j < 2 ^ 48"
    proof (intro allI impI)
      fix j assume "j < k"
      then have "r * 256 ^ Suc j < 2 ^ 48" using a by blast
      then show "r * 256 * 256 ^ j < 2 ^ 48" by (simp add: mult.assoc)
    qed
    ultimately show "r < 2 ^ 48 \<and> (\<forall>j<k. r * 256 * 256 ^ j < 2 ^ 48)" by simp
  next
    assume a: "r < 2 ^ 48 \<and> (\<forall>j<k. r * 256 * 256 ^ j < 2 ^ 48)"
    show "\<forall>j<Suc k. r * 256 ^ j < 2 ^ 48"
    proof (intro allI impI)
      fix j assume j: "j < Suc k"
      show "r * 256 ^ j < 2 ^ 48"
      proof (cases j)
        case 0
        then show ?thesis using a by simp
      next
        case (Suc i)
        then have "i < k" using j by simp
        then have "r * 256 * 256 ^ i < 2 ^ 48" using a by blast
        then show ?thesis using Suc by (simp add: mult.assoc)
      qed
    qed
  qed
  then show ?thesis by (simp add: nshift_def mult.assoc)
qed

lemma nshift_ex: "0 < r \<Longrightarrow> \<exists>k\<le>6. nshift r k"
proof -
  assume r: "0 < r"
  let ?P = "\<lambda>k. (2::nat) ^ 48 \<le> r * 256 ^ k"
  have "1 * (256::nat) ^ 6 \<le> r * 256 ^ 6" using r by (intro mult_le_mono1) simp
  then have P6: "?P 6" by simp
  define k where "k = (LEAST k. ?P k)"
  have "?P k" unfolding k_def using P6 by (rule LeastI)
  moreover have "k \<le> 6" unfolding k_def using P6 by (rule Least_le)
  moreover have "\<forall>j<k. r * 256 ^ j < 2 ^ 48"
  proof (intro allI impI)
    fix j assume "j < k"
    then have "\<not> ?P j" unfolding k_def by (rule not_less_Least)
    then show "r * 256 ^ j < 2 ^ 48" by simp
  qed
  ultimately show ?thesis unfolding nshift_def by blast
qed

lemma pending_length_n: "unat (num_ff_bytes g) \<le> length (pending g)"
  by (simp add: pending_def)

lemma coding_step_pre_inv:
  assumes inv: "enc_inv g fp" and tab: "table_ok c (total_c g)" and sym: "sym_ok c s"
    and gt: "total_c g < R g"
  shows "pre_inv (coding_step s c g) fp"
    and "low_bound (coding_step s c g) fp =
           low_bound g fp + step_low c s (unat (total_c g)) (unat (R g))"
proof -
  let ?g = "coding_step s c g"
  define sl where "sl = step_low c s (unat (total_c g)) (unat (R g))"
  define sr where "sr = step_range c s (unat (total_c g)) (unat (R g))"
  from inv have r: "0 < unat (R g)" "unat (R g) < 2 ^ 56" and l: "unat (L g) < 2 ^ 56"
    and bnd: "low_bound g fp + unat (R g) \<le> 256 ^ length (fp @ pending g) * 2 ^ 56"
    and f: "first g \<longrightarrow> fp = []"
    and ff: "\<not> first g \<and> last_non_ff_byte g = 255 \<longrightarrow> unat (L g) + unat (R g) \<le> 2 ^ 56"
    by (simp_all add: enc_inv_def pre_inv_def)
  have uL: "unat (L ?g) = unat (L g) + sl" and uR: "unat (R ?g) = sr"
    using coding_step_nat [OF tab sym gt r(2) l] by (simp_all add: sl_def sr_def)
  have Tr: "unat (total_c g) < unat (R g)" using gt by (simp add: word_less_nat_alt)
  have sr: "0 < sr" "sl + sr \<le> unat (R g)"
    using step_range_facts [OF tab sym Tr] by (simp_all add: sl_def sr_def)
  show lb: "low_bound ?g fp = low_bound g fp + step_low c s (unat (total_c g)) (unat (R g))"
    using uL by (simp add: low_bound_def coding_step_fields sl_def)
  have "low_bound ?g fp + sr \<le> low_bound g fp + unat (R g)"
    using lb sr by (simp add: sl_def)
  then have b': "low_bound ?g fp + sr \<le> 256 ^ length (fp @ pending g) * 2 ^ 56"
    using bnd by (rule order_trans)
  have lr: "unat (L g) + sl + sr \<le> unat (L g) + unat (R g)" using sr by simp
  have c1: "0 < unat (R ?g)" using sr(1) uR by simp
  have c2: "unat (R ?g) < 2 ^ 56" using sr(2) r(2) uR by linarith
  have "unat (L g) + unat (R g) < 2 ^ 57" using l r(2) by simp
  then have c3: "unat (L ?g) + unat (R ?g) < 2 ^ 57" using lr uL uR by linarith
  have c4: "low_bound ?g fp + unat (R ?g) \<le> 256 ^ length (fp @ pending ?g) * 2 ^ 56"
    using b' uR by (simp add: coding_step_fields)
  have c5: "first ?g \<longrightarrow> fp = []" using f by (simp add: coding_step_fields)
  have c6: "\<not> first ?g \<and> last_non_ff_byte ?g = 255 \<longrightarrow> unat (L ?g) + unat (R ?g) \<le> 2 ^ 56"
  proof
    assume "\<not> first ?g \<and> last_non_ff_byte ?g = 255"
    then have "unat (L g) + unat (R g) \<le> 2 ^ 56" using ff by (simp add: coding_step_fields)
    then show "unat (L ?g) + unat (R ?g) \<le> 2 ^ 56" using lr uL uR by linarith
  qed
  show "pre_inv ?g fp"
    unfolding pre_inv_def using c1 c2 c3 c4 c5 c6 by blast
qed

lemma val_carry:
  assumes "unat (h + 1) = unat h + 1"
  shows "val_bytes (fp @ [h + 1] @ replicate n 0) = val_bytes (fp @ [h] @ replicate n 255) + 1"
proof -
  have a: "val_bytes (fp @ [h + 1] @ replicate n 0) = (val_bytes fp * 256 + unat h + 1) * 256 ^ n"
    using val_bytes_append [of "fp @ [h + 1]" "replicate n 0"] assms
    by (simp add: val_bytes_replicate_0)
  have b: "val_bytes (fp @ [h] @ replicate n 255) + 1 =
           (val_bytes fp * 256 + unat h) * 256 ^ n + 256 ^ n"
    using val_bytes_append [of "fp @ [h]" "replicate n 255"] val_bytes_replicate_ff [of n]
    by simp
  show ?thesis unfolding a b by (simp add: algebra_simps)
qed

lemma enc_invI:
  assumes "0 < unat (R g)" and "unat (R g) < 2 ^ 56" and "unat (L g) < 2 ^ 56"
    and "low_bound g fp + unat (R g) \<le> 256 ^ length (fp @ pending g) * 2 ^ 56"
    and "first g \<Longrightarrow> fp = []"
    and "\<not> first g \<Longrightarrow> last_non_ff_byte g = 255 \<Longrightarrow> unat (L g) + unat (R g) \<le> 2 ^ 56"
  shows "enc_inv g fp"
proof -
  have "unat (L g) + unat (R g) < 2 ^ 57" using assms(2,3) by simp
  then show ?thesis unfolding enc_inv_def pre_inv_def using assms by blast
qed

lemma enc_invD:
  assumes "enc_inv g fp"
  shows "0 < unat (R g)" and "unat (R g) < 2 ^ 56" and "unat (L g) < 2 ^ 56"
    and "low_bound g fp + unat (R g) \<le> 256 ^ length (fp @ pending g) * 2 ^ 56"
    and "first g \<Longrightarrow> fp = []"
    and "\<not> first g \<Longrightarrow> last_non_ff_byte g = 255 \<Longrightarrow> unat (L g) + unat (R g) \<le> 2 ^ 56"
  using assms unfolding enc_inv_def pre_inv_def by blast+

lemma carry_step_inv:
  assumes "pre_inv g fp"
  shows "\<exists>g' fp'. carry_step g fp = (g', fp') \<and> enc_inv g' fp' \<and>
           low_bound g' fp' = low_bound g fp \<and>
           length (fp' @ pending g') = length (fp @ pending g) \<and>
           R g' = R g \<and> total_c g' = total_c g \<and> D g' = D g"
proof (cases "FULL < L g")
  case False
  then have l: "unat (L g) < 2 ^ 56" by (simp add: FULL_less_iff)
  have "carry_step g fp = (g, fp)" using False by (simp add: carry_step_def)
  then show ?thesis using assms l by (simp add: enc_inv_def)
next
  case True
  then have l: "2 ^ 56 \<le> unat (L g)" by (simp add: FULL_less_iff)
  define n where "n = unat (num_ff_bytes g)"
  define h where "h = last_non_ff_byte g"
  from assms have r: "0 < unat (R g)" "unat (R g) < 2 ^ 56"
    and lr: "unat (L g) + unat (R g) < 2 ^ 57"
    and bnd: "low_bound g fp + unat (R g) \<le> 256 ^ length (fp @ pending g) * 2 ^ 56"
    and f: "first g \<longrightarrow> fp = []"
    and ff: "\<not> first g \<and> h = 255 \<longrightarrow> unat (L g) + unat (R g) \<le> 2 ^ 56"
    by (simp_all add: pre_inv_def h_def)
  have nf: "\<not> first g"
  proof
    assume fi: "first g"
    then have "fp = []" using f by simp
    then have B: "fp @ pending g = replicate n 255"
      using fi by (simp add: pending_def n_def FULLBYTE_def)
    have "val_bytes (replicate n 255) * 2 ^ 56 + unat (L g) + unat (R g) \<le> 256 ^ n * 2 ^ 56"
      using bnd B by (simp add: low_bound_def)
    moreover have "(256::nat) ^ n * 2 ^ 56 = val_bytes (replicate n 255) * 2 ^ 56 + 2 ^ 56"
      using val_bytes_replicate_ff [of n, symmetric] by (simp add: algebra_simps)
    ultimately have "unat (L g) + unat (R g) \<le> 2 ^ 56" by simp
    then show False using l r by simp
  qed
  have hne: "h \<noteq> 255"
  proof
    assume "h = 255"
    then have "unat (L g) + unat (R g) \<le> 2 ^ 56" using ff nf by simp
    then show False using l r by simp
  qed
  have "unat h \<noteq> 255"
  proof
    assume "unat h = 255"
    then have "of_nat (unat h) = (of_nat 255 :: u8)" by simp
    then show False using hne by simp
  qed
  moreover have "unat h < 256" using unsigned_less [of h] by simp
  ultimately have "unat h + unat (1::u8) < 2 ^ LENGTH(8)" by simp
  then have uh: "unat (h + 1) = unat h + 1"
    by (simp add: unat_add_lem [THEN iffD1])
  have ul: "unat (L g AND FULL) = unat (L g) - 2 ^ 56"
  proof -
    have "unat (L g) mod 2 ^ 56 = (unat (L g) - 2 ^ 56) mod 2 ^ 56"
      using l by (rule le_mod_geq)
    also have "\<dots> = unat (L g) - 2 ^ 56" using lr r by simp
    finally show ?thesis by (simp add: unat_and_FULL)
  qed
  have pend: "pending g = [h] @ replicate n 255"
    using nf by (simp add: pending_def h_def n_def FULLBYTE_def)
  have lb: "low_bound g fp = val_bytes (fp @ [h] @ replicate n 255) * 2 ^ 56 + unat (L g)"
    by (simp add: low_bound_def pend)
  have key: "(val_bytes (fp @ [h] @ replicate n 255) + 1) * 2 ^ 56 + (unat (L g) - 2 ^ 56) =
             val_bytes (fp @ [h] @ replicate n 255) * 2 ^ 56 + unat (L g)"
    using l by (simp add: algebra_simps)
  show ?thesis
  proof (cases "num_ff_bytes g = 0")
    case z: True
    then have n0: "n = 0" by (simp add: n_def)
    let ?g = "g\<lparr>last_non_ff_byte := h + 1, L := L g AND FULL\<rparr>"
    have cs: "carry_step g fp = (?g, fp)"
      using True z by (simp add: carry_step_eq h_def)
    have pend': "pending ?g = [h + 1] @ replicate n 0"
      using nf n0 by (simp add: pending_def n_def)
    have lb': "low_bound ?g fp = low_bound g fp"
      unfolding lb using key val_carry [OF uh, of fp n] ul
      by (simp add: low_bound_def pend')
    have len: "length (fp @ pending ?g) = length (fp @ pending g)"
      by (simp add: pend pend')
    have "enc_inv ?g fp"
    proof (rule enc_invI)
      show "0 < unat (R ?g)" using r by simp
      show "unat (R ?g) < 2 ^ 56" using r by simp
      show "unat (L ?g) < 2 ^ 56" using ul lr r by simp
      show "low_bound ?g fp + unat (R ?g) \<le> 256 ^ length (fp @ pending ?g) * 2 ^ 56"
        unfolding len lb' using bnd by simp
      show "fp = []" if "first ?g" using that nf by simp
      show "unat (L ?g) + unat (R ?g) \<le> 2 ^ 56" using ul lr l r by simp
    qed
    then show ?thesis using cs lb' len by simp
  next
    case nz: False
    then have npos: "0 < n" by (simp add: n_def unat_gt_0)
    let ?g = "g\<lparr>last_non_ff_byte := 0, L := L g AND FULL, num_ff_bytes := 0,
                 bytes_out := bytes_out g + of_nat (unat (num_ff_bytes g))\<rparr>"
    let ?fp = "fp @ (h + 1) # replicate (n - 1) 0"
    have cs: "carry_step g fp = (?g, ?fp)"
      using True nz by (simp add: carry_step_eq h_def n_def)
    have "replicate (n - 1) (0::u8) @ [0] = replicate n 0"
      using npos by (metis Suc_pred' replicate_append_same replicate_Suc)
    then have B': "?fp @ pending ?g = fp @ [h + 1] @ replicate n 0"
      using nf by (simp add: pending_def)
    have lb': "low_bound ?g ?fp = low_bound g fp"
      unfolding low_bound_def B' using key val_carry [OF uh, of fp n] ul by (simp add: pend)
    have len: "length (?fp @ pending ?g) = length (fp @ pending g)"
      unfolding B' by (simp add: pend)
    have "enc_inv ?g ?fp"
    proof (rule enc_invI)
      show "0 < unat (R ?g)" using r by simp
      show "unat (R ?g) < 2 ^ 56" using r by simp
      show "unat (L ?g) < 2 ^ 56" using ul lr r by simp
      show "low_bound ?g ?fp + unat (R ?g) \<le> 256 ^ length (?fp @ pending ?g) * 2 ^ 56"
        unfolding len lb' using bnd by simp
      show "?fp = []" if "first ?g" using that nf by simp
      show "unat (L ?g) + unat (R ?g) \<le> 2 ^ 56" using ul lr l r by simp
    qed
    then show ?thesis using cs lb' len by simp
  qed
qed

lemma top_byte_nat:
  "unat (w::u64) < 2 ^ 56 \<Longrightarrow> unat (ucast (drop_bit (BBITS - 8) w) :: u8) = unat w div 2 ^ 48"
proof -
  assume "unat w < 2 ^ 56"
  then have "unat w < 2 ^ 48 * 256" by simp
  then have "unat w div 2 ^ 48 < 256" by (simp add: less_mult_imp_div_less)
  then show ?thesis by (simp add: unat_top_byte)
qed

lemma shiftL_nat:
  assumes "unat (w::u64) < 2 ^ 56"
  shows "unat (push_bit 8 w AND FULL) = (unat w mod 2 ^ 48) * 256"
proof -
  have "unat w * 256 < 2 ^ 64" using assms by simp
  then have "unat (push_bit 8 w) = unat w * 256" by (simp add: unat_shift8)
  then have "unat (push_bit 8 w AND FULL) = (unat w * 256) mod (2 ^ 48 * 256)"
    by (simp add: unat_and_FULL)
  also have "\<dots> = (unat w mod 2 ^ 48) * 256" by (rule mod_mult_mult2)
  finally show ?thesis .
qed

lemma shiftR_nat: "unat (w::u64) < 2 ^ 56 \<Longrightarrow> unat (push_bit 8 w) = unat w * 256"
  by (simp add: unat_shift8)

lemma byte_eq_ff: "(b::u8) = FULLBYTE \<longleftrightarrow> unat b = 255"
proof
  assume "b = FULLBYTE"
  then show "unat b = 255" by (simp add: FULLBYTE_def)
next
  assume "unat b = 255"
  then have "of_nat (unat b) = (of_nat 255 :: u8)" by simp
  then show "b = FULLBYTE" by (simp add: FULLBYTE_def)
qed

lemma counter_room: "n \<noteq> (- 1 :: u32) \<Longrightarrow> unat n + 1 < 2 ^ 32"
proof -
  assume "n \<noteq> - 1"
  then have "unat n \<noteq> unat (- 1 :: u32)" by (simp add: word_unat_eq_iff)
  moreover have "unat (- 1 :: u32) = 2 ^ 32 - 1"
    by (simp add: unsigned_minus_1_eq_mask mask_eq_exp_minus_1)
  moreover have "unat n < 2 ^ 32" using unsigned_less [of n, where 'a = nat] by simp
  ultimately show ?thesis by simp
qed

lemma renorm_body_fields:
  assumes n: "(ucast (drop_bit (BBITS - 8) (L g)) :: u8) = FULLBYTE \<longrightarrow>
              unat (num_ff_bytes g) + 1 < 2 ^ 32"
  shows "snd (renorm_body g fp) @ pending (fst (renorm_body g fp)) =
           (fp @ pending g) @ [ucast (drop_bit (BBITS - 8) (L g))]"
    and "L (fst (renorm_body g fp)) = push_bit 8 (L g) AND FULL"
    and "R (fst (renorm_body g fp)) = push_bit 8 (R g)"
    and "total_c (fst (renorm_body g fp)) = total_c g"
    and "D (fst (renorm_body g fp)) = D g"
    and "first (fst (renorm_body g fp)) =
           (first g \<and> (ucast (drop_bit (BBITS - 8) (L g)) :: u8) = FULLBYTE)"
    and "last_non_ff_byte (fst (renorm_body g fp)) =
           (if (ucast (drop_bit (BBITS - 8) (L g)) :: u8) \<noteq> FULLBYTE
            then ucast (drop_bit (BBITS - 8) (L g)) else last_non_ff_byte g)"
    and "(ucast (drop_bit (BBITS - 8) (L g)) :: u8) = FULLBYTE \<Longrightarrow> snd (renorm_body g fp) = fp"
proof -
  define b where "b = (ucast (drop_bit (BBITS - 8) (L g)) :: u8)"
  have un: "unat (num_ff_bytes g + 1) = Suc (unat (num_ff_bytes g))" if "b = FULLBYTE"
  proof -
    have "unat (num_ff_bytes g) + unat (1::u32) < 2 ^ LENGTH(32)"
      using n that by (simp add: b_def)
    then show ?thesis by (simp add: unat_add_lem [THEN iffD1])
  qed
  have eq: "renorm_body g fp =
    (if b \<noteq> FULLBYTE
     then (g\<lparr>bytes_out := (if \<not> first g then bytes_out g + 1 else bytes_out g) +
                              of_nat (unat (num_ff_bytes g)),
              num_ff_bytes := 0, last_non_ff_byte := b, first := False,
              L := push_bit 8 (L g) AND FULL, R := push_bit 8 (R g)\<rparr>,
           fp @ pending g)
     else (g\<lparr>num_ff_bytes := num_ff_bytes g + 1,
              L := push_bit 8 (L g) AND FULL, R := push_bit 8 (R g)\<rparr>, fp))"
    unfolding renorm_body_def Let_def flush_ff_loop_eq fputc_def b_def [symmetric]
    by (simp add: pending_def)
  show "snd (renorm_body g fp) @ pending (fst (renorm_body g fp)) =
           (fp @ pending g) @ [ucast (drop_bit (BBITS - 8) (L g))]"
    unfolding b_def [symmetric] eq
    by (cases "b = FULLBYTE") (simp_all add: pending_def un replicate_append_same)
  show "L (fst (renorm_body g fp)) = push_bit 8 (L g) AND FULL"
    unfolding eq by simp
  show "R (fst (renorm_body g fp)) = push_bit 8 (R g)"
    unfolding eq by simp
  show "total_c (fst (renorm_body g fp)) = total_c g"
    unfolding eq by simp
  show "D (fst (renorm_body g fp)) = D g"
    unfolding eq by simp
  show "first (fst (renorm_body g fp)) =
           (first g \<and> (ucast (drop_bit (BBITS - 8) (L g)) :: u8) = FULLBYTE)"
    unfolding b_def [symmetric] eq by simp
  show "last_non_ff_byte (fst (renorm_body g fp)) =
           (if (ucast (drop_bit (BBITS - 8) (L g)) :: u8) \<noteq> FULLBYTE
            then ucast (drop_bit (BBITS - 8) (L g)) else last_non_ff_byte g)"
    unfolding b_def [symmetric] eq by simp
  show "snd (renorm_body g fp) = fp" if "(ucast (drop_bit (BBITS - 8) (L g)) :: u8) = FULLBYTE"
    using that unfolding b_def [symmetric] eq by simp
qed

lemma renorm_body_inv:
  assumes inv: "enc_inv g fp" and small: "unat (R g) < 2 ^ 48"
    and room: "(ucast (drop_bit (BBITS - 8) (L g)) :: u8) = FULLBYTE \<Longrightarrow> num_ff_bytes g \<noteq> - 1"
  shows "enc_inv (fst (renorm_body g fp)) (snd (renorm_body g fp))"
    and "low_bound (fst (renorm_body g fp)) (snd (renorm_body g fp)) = low_bound g fp * 256"
    and "length (snd (renorm_body g fp) @ pending (fst (renorm_body g fp))) =
           length (fp @ pending g) + 1"
    and "unat (R (fst (renorm_body g fp))) = unat (R g) * 256"
    and "total_c (fst (renorm_body g fp)) = total_c g"
    and "D (fst (renorm_body g fp)) = D g"
proof -
  let ?g = "fst (renorm_body g fp)"
  let ?fp = "snd (renorm_body g fp)"
  define b where "b = (ucast (drop_bit (BBITS - 8) (L g)) :: u8)"
  define l where "l = unat (L g)"
  define r where "r = unat (R g)"
  define q where "q = l div 2 ^ 48"
  define m where "m = l mod 2 ^ 48"
  define V where "V = val_bytes (fp @ pending g)"
  note d = enc_invD [OF inv]
  have n: "(ucast (drop_bit (BBITS - 8) (L g)) :: u8) = FULLBYTE \<longrightarrow>
           unat (num_ff_bytes g) + 1 < 2 ^ 32"
    using room counter_room by blast
  note fl = renorm_body_fields [OF n, of fp, folded b_def]
  have lq: "l = q * 2 ^ 48 + m" by (simp add: q_def m_def)
  have m48: "m < 2 ^ 48" by (simp add: m_def)
  have ub: "unat b = q" using d(3) by (simp add: b_def q_def l_def top_byte_nat)
  have uL: "unat (L ?g) = m * 256"
    using d(3) by (simp add: fl(2) shiftL_nat m_def l_def)
  have uR: "unat (R ?g) = r * 256"
    using d(2) by (simp add: fl(3) shiftR_nat r_def)
  show "unat (R ?g) = unat (R g) * 256" using uR by (simp add: r_def)
  show "total_c ?g = total_c g" by (rule fl(4))
  show "D ?g = D g" by (rule fl(5))
  show ln: "length (?fp @ pending ?g) = length (fp @ pending g) + 1"
    unfolding fl(1) by simp
  have vb: "val_bytes ((fp @ pending g) @ [b]) = V * 256 + q"
    by (simp only: val_bytes_snoc V_def ub)
  have lb0: "low_bound ?g ?fp = (V * 256 + q) * 2 ^ 56 + m * 256"
    unfolding low_bound_def fl(1) uL vb by (rule refl)
  have lb1: "low_bound g fp = V * 2 ^ 56 + (q * 2 ^ 48 + m)"
    unfolding low_bound_def V_def [symmetric] l_def [symmetric] using lq by simp
  show lb: "low_bound ?g ?fp = low_bound g fp * 256"
    unfolding lb0 lb1 by (simp add: algebra_simps)
  show "enc_inv ?g ?fp"
  proof (rule enc_invI)
    show "0 < unat (R ?g)" using d(1) uR by (simp add: r_def)
    show "unat (R ?g) < 2 ^ 56" using small uR by (simp add: r_def)
    show "unat (L ?g) < 2 ^ 56" using m48 uL by simp
    have "(low_bound g fp + r) * 256 \<le> (256 ^ length (fp @ pending g) * 2 ^ 56) * 256"
      using d(4) unfolding r_def by (rule mult_le_mono1)
    then show "low_bound ?g ?fp + unat (R ?g) \<le> 256 ^ length (?fp @ pending ?g) * 2 ^ 56"
      unfolding lb uR ln by (simp add: algebra_simps)
    show "?fp = []" if "first ?g"
      using that d(5) fl(6,8) by simp
    show "unat (L ?g) + unat (R ?g) \<le> 2 ^ 56"
      if nf: "\<not> first ?g" and h: "last_non_ff_byte ?g = 255"
    proof (cases "b = FULLBYTE")
      case False
      then have "last_non_ff_byte ?g = b" by (simp add: fl(7))
      then show ?thesis using False h by (simp add: FULLBYTE_def)
    next
      case True
      then have "\<not> first g" "last_non_ff_byte g = 255" using nf h fl(6,7) by simp_all
      then have "l + r \<le> 2 ^ 56" using d(6) by (simp add: l_def r_def)
      moreover have "q = 255" using True ub by (simp add: byte_eq_ff)
      ultimately show ?thesis unfolding uL uR using lq by simp
    qed
  qed
qed

lemma renorm_loop_inv:
  "nshift (unat (R g)) k \<Longrightarrow> enc_inv g fp \<Longrightarrow> renorm_wraps g fp \<noteq> Some True \<Longrightarrow>
   \<exists>g' fp'. renorm_loop g fp = Some (g', fp') \<and> enc_inv g' fp' \<and>
     low_bound g' fp' = low_bound g fp * 256 ^ k \<and>
     length (fp' @ pending g') = length (fp @ pending g) + k \<and>
     unat (R g') = unat (R g) * 256 ^ k \<and> total_c g' = total_c g \<and> D g' = D g"
proof (induction k arbitrary: g fp)
  case 0
  then have "\<not> R g < PART" by (simp add: nshift_0 less_PART_iff)
  then have "renorm_loop g fp = Some (g, fp)" by (subst renorm_loop.simps) simp
  then show ?case using 0 by simp
next
  case (Suc k)
  let ?g = "fst (renorm_body g fp)"
  let ?fp = "snd (renorm_body g fp)"
  from Suc.prems(1) have small: "unat (R g) < 2 ^ 48" and ns: "nshift (unat (R g) * 256) k"
    by (simp_all add: nshift_Suc)
  have lt: "R g < PART" using small by (simp add: less_PART_iff)
  have w: "renorm_wraps g fp =
      (if (ucast (drop_bit (BBITS - 8) (L g)) :: u8) = FULLBYTE \<and> num_ff_bytes g = - 1
       then Some True else renorm_wraps ?g ?fp)"
    using lt by (subst renorm_wraps.simps) simp
  have room: "num_ff_bytes g \<noteq> - 1" if "(ucast (drop_bit (BBITS - 8) (L g)) :: u8) = FULLBYTE"
    using Suc.prems(3) that unfolding w by auto
  have len': "renorm_wraps ?g ?fp \<noteq> Some True"
    using Suc.prems(3) unfolding w by (auto split: if_splits)
  note rb = renorm_body_inv [OF Suc.prems(2) small room]
  have unf: "renorm_loop g fp = renorm_loop ?g ?fp" using lt by (subst renorm_loop.simps) simp
  have ns': "nshift (unat (R ?g)) k" using ns rb(4) by simp
  obtain g' fp' where r:
    "renorm_loop ?g ?fp = Some (g', fp')" "enc_inv g' fp'"
    "low_bound g' fp' = low_bound ?g ?fp * 256 ^ k"
    "length (fp' @ pending g') = length (?fp @ pending ?g) + k"
    "unat (R g') = unat (R ?g) * 256 ^ k" "total_c g' = total_c ?g" "D g' = D ?g"
    using Suc.IH [OF ns' rb(1) len'] by blast
  have "low_bound g' fp' = low_bound g fp * 256 ^ Suc k" using r(3) rb(2) by simp
  moreover have "length (fp' @ pending g') = length (fp @ pending g) + Suc k"
    using r(4) rb(3) by simp
  moreover have "unat (R g') = unat (R g) * 256 ^ Suc k" using r(5) rb(4) by simp
  ultimately show ?case using unf r(1,2,6,7) rb(5,6) by simp
qed

lemma arith_encode_inv:
  assumes inv: "enc_inv g fp" and big: "PART \<le> R g" and tab: "table_ok c (total_c g)"
    and sym: "sym_ok c s"
    and nw: "renorm_wraps (fst (carry_step (coding_step s c g) fp))
                          (snd (carry_step (coding_step s c g) fp)) \<noteq> Some True"
  shows "\<exists>g' fp' k. arith_encode s c g fp = Some (Inr (g', fp')) \<and> enc_inv g' fp' \<and>
     PART \<le> R g' \<and> k \<le> 6 \<and>
     nshift (step_range c s (unat (total_c g)) (unat (R g))) k \<and>
     low_bound g' fp' =
       (low_bound g fp + step_low c s (unat (total_c g)) (unat (R g))) * 256 ^ k \<and>
     length (fp' @ pending g') = length (fp @ pending g) + k \<and>
     unat (R g') = step_range c s (unat (total_c g)) (unat (R g)) * 256 ^ k \<and>
     total_c g' = total_c g \<and> D g' = D g"
proof -
  define T where "T = unat (total_c g)"
  define r where "r = unat (R g)"
  note d = enc_invD [OF inv]
  note sb = sym_bounds [OF tab sym]
  have r48: "2 ^ 48 \<le> r" using big by (simp add: PART_le_iff r_def)
  have Tr: "T < r" using sb(3) r48 by (simp add: T_def)
  then have gt: "total_c g < R g" by (simp add: word_less_nat_alt T_def r_def)
  have Tpos: "total_c g \<noteq> 0" using sb(1,2) by (metis less_nat_zero_code le_zero_eq unat_0)
  have s: "s < length c" using sym by (simp add: sym_ok_def)
  note cs = coding_step_pre_inv [OF inv tab sym gt]
  obtain g1 fp1 where c1: "carry_step (coding_step s c g) fp = (g1, fp1)" "enc_inv g1 fp1"
    "low_bound g1 fp1 = low_bound (coding_step s c g) fp"
    "length (fp1 @ pending g1) = length (fp @ pending (coding_step s c g))"
    "R g1 = R (coding_step s c g)" "total_c g1 = total_c (coding_step s c g)"
    "D g1 = D (coding_step s c g)"
    using carry_step_inv [OF cs(1)] by blast
  have uR1: "unat (R g1) = step_range c s T r"
    using coding_step_nat(2) [OF tab sym gt d(2,3)] c1(5) by (simp add: T_def r_def)
  have "0 < step_range c s T r" using step_range_facts(1) [OF tab sym] Tr by (simp add: T_def)
  then obtain k where k: "k \<le> 6" "nshift (step_range c s T r) k" using nshift_ex by blast
  have len1: "renorm_wraps g1 fp1 \<noteq> Some True" using nw by (simp add: c1(1))
  have ns1: "nshift (unat (R g1)) k" using k(2) uR1 by simp
  obtain g' fp' where r:
    "renorm_loop g1 fp1 = Some (g', fp')" "enc_inv g' fp'"
    "low_bound g' fp' = low_bound g1 fp1 * 256 ^ k"
    "length (fp' @ pending g') = length (fp1 @ pending g1) + k"
    "unat (R g') = unat (R g1) * 256 ^ k" "total_c g' = total_c g1" "D g' = D g1"
    using renorm_loop_inv [OF ns1 c1(2) len1] by blast
  have run: "arith_encode s c g fp = Some (Inr (g', fp'))"
    using gt s Tpos c1(1) r(1) by (simp add: arith_encode_def)
  have "2 ^ 48 \<le> unat (R g')" using k(2) r(5) uR1 by (simp add: nshift_def)
  then have big': "PART \<le> R g'" by (simp add: PART_le_iff)
  have "low_bound g' fp' = (low_bound g fp + step_low c s T r) * 256 ^ k"
    using r(3) c1(3) cs(2) by (simp add: T_def r_def)
  moreover have "length (fp' @ pending g') = length (fp @ pending g) + k"
    using r(4) c1(4) by (simp add: coding_step_fields)
  moreover have "unat (R g') = step_range c s T r * 256 ^ k" using r(5) uR1 by simp
  moreover have "total_c g' = total_c g" "D g' = D g"
    using r(6,7) c1(6,7) by (simp_all add: coding_step_fields)
  ultimately show ?thesis
    using run r(2) big' k unfolding T_def r_def by blast
qed

lemma R_ok_nat: "R_ok g \<longleftrightarrow> 2 ^ 48 \<le> unat (R g) \<and> unat (R g) < 2 ^ 56"
  unfolding R_ok_def word_le_nat_alt unat_PART unat_FULL by auto

lemma nshift_bound: "nshift r k \<Longrightarrow> r < 2 ^ 56 \<Longrightarrow> r * 256 ^ k < 2 ^ 56"
proof (cases k)
  case 0
  then show "r < 2 ^ 56 \<Longrightarrow> r * 256 ^ k < 2 ^ 56" by simp
next
  case (Suc j)
  assume "nshift r k"
  then have "r * 256 ^ j < 2 ^ 48" using Suc by (simp add: nshift_def)
  then have "r * 256 ^ j * 256 < 2 ^ 48 * 256" by simp
  then show "r * 256 ^ k < 2 ^ 56" using Suc by (simp add: mult.assoc mult.commute)
qed

lemma renorm_body_plain:
  shows "L (fst (renorm_body g fp)) = push_bit 8 (L g) AND FULL"
    and "R (fst (renorm_body g fp)) = push_bit 8 (R g)"
    and "total_c (fst (renorm_body g fp)) = total_c g"
    and "D (fst (renorm_body g fp)) = D g"
    and "first (fst (renorm_body g fp)) =
           (first g \<and> (ucast (drop_bit (BBITS - 8) (L g)) :: u8) = FULLBYTE)"
    and "last_non_ff_byte (fst (renorm_body g fp)) =
           (if (ucast (drop_bit (BBITS - 8) (L g)) :: u8) \<noteq> FULLBYTE
            then ucast (drop_bit (BBITS - 8) (L g)) else last_non_ff_byte g)"
proof -
  define b where "b = (ucast (drop_bit (BBITS - 8) (L g)) :: u8)"
  have eq: "renorm_body g fp =
    (if b \<noteq> FULLBYTE
     then (g\<lparr>bytes_out := (if \<not> first g then bytes_out g + 1 else bytes_out g) +
                              of_nat (unat (num_ff_bytes g)),
              num_ff_bytes := 0, last_non_ff_byte := b, first := False,
              L := push_bit 8 (L g) AND FULL, R := push_bit 8 (R g)\<rparr>,
           fp @ pending g)
     else (g\<lparr>num_ff_bytes := num_ff_bytes g + 1,
              L := push_bit 8 (L g) AND FULL, R := push_bit 8 (R g)\<rparr>, fp))"
    unfolding renorm_body_def Let_def flush_ff_loop_eq fputc_def b_def [symmetric]
    by (simp add: pending_def)
  show "L (fst (renorm_body g fp)) = push_bit 8 (L g) AND FULL"
    unfolding eq by simp
  show "R (fst (renorm_body g fp)) = push_bit 8 (R g)"
    unfolding eq by simp
  show "total_c (fst (renorm_body g fp)) = total_c g"
    unfolding eq by simp
  show "D (fst (renorm_body g fp)) = D g"
    unfolding eq by simp
  show "first (fst (renorm_body g fp)) =
           (first g \<and> (ucast (drop_bit (BBITS - 8) (L g)) :: u8) = FULLBYTE)"
    unfolding b_def [symmetric] eq by simp
  show "last_non_ff_byte (fst (renorm_body g fp)) =
           (if (ucast (drop_bit (BBITS - 8) (L g)) :: u8) \<noteq> FULLBYTE
            then ucast (drop_bit (BBITS - 8) (L g)) else last_non_ff_byte g)"
    unfolding b_def [symmetric] eq by simp
qed

lemma carry_step_plain:
  shows "R (fst (carry_step g fp)) = R g"
    and "total_c (fst (carry_step g fp)) = total_c g"
    and "D (fst (carry_step g fp)) = D g"
    and "first (fst (carry_step g fp)) = first g"
    and "L (fst (carry_step g fp)) = (if FULL < L g then L g AND FULL else L g)"
    and "\<not> FULL < L g \<Longrightarrow> last_non_ff_byte (fst (carry_step g fp)) = last_non_ff_byte g"
proof -
  have eq: "carry_step g fp =
     (if FULL < L g
      then (if num_ff_bytes g = 0
            then (g\<lparr>last_non_ff_byte := last_non_ff_byte g + 1, L := L g AND FULL\<rparr>, fp)
            else (g\<lparr>last_non_ff_byte := 0, L := L g AND FULL, num_ff_bytes := 0,
                     bytes_out := bytes_out g + of_nat (unat (num_ff_bytes g))\<rparr>,
                  fp @ (last_non_ff_byte g + 1) # replicate (unat (num_ff_bytes g) - 1) 0))
      else (g, fp))"
    using carry_step_eq [of g fp] by (simp add: carry_step_def)
  show "R (fst (carry_step g fp)) = R g" unfolding eq by simp
  show "total_c (fst (carry_step g fp)) = total_c g" unfolding eq by simp
  show "D (fst (carry_step g fp)) = D g" unfolding eq by simp
  show "first (fst (carry_step g fp)) = first g" unfolding eq by simp
  show "L (fst (carry_step g fp)) = (if FULL < L g then L g AND FULL else L g)"
    unfolding eq by simp
  show "last_non_ff_byte (fst (carry_step g fp)) = last_non_ff_byte g" if "\<not> FULL < L g"
    using that unfolding eq by simp
qed

lemma carry_coding_lr_inv:
  assumes inv: "lr_inv g" and tab: "table_ok c (total_c g)" and sym: "sym_ok c s"
    and gt: "total_c g < R g"
  shows "lr_inv (fst (carry_step (coding_step s c g) fp))"
proof -
  let ?g1 = "coding_step s c g"
  let ?g2 = "fst (carry_step ?g1 fp)"
  define sl where "sl = step_low c s (unat (total_c g)) (unat (R g))"
  define sr where "sr = step_range c s (unat (total_c g)) (unat (R g))"
  from inv have l: "unat (L g) < 2 ^ 56" and r: "0 < unat (R g)" "unat (R g) < 2 ^ 56"
    and ff: "\<not> first g \<and> last_non_ff_byte g = 255 \<longrightarrow> unat (L g) + unat (R g) \<le> 2 ^ 56"
    by (simp_all add: lr_inv_def)
  have uL: "unat (L ?g1) = unat (L g) + sl" and uR: "unat (R ?g1) = sr"
    using coding_step_nat [OF tab sym gt r(2) l] by (simp_all add: sl_def sr_def)
  have Tr: "unat (total_c g) < unat (R g)" using gt by (simp add: word_less_nat_alt)
  have sr: "0 < sr" "sl + sr \<le> unat (R g)"
    using step_range_facts [OF tab sym Tr] by (simp_all add: sl_def sr_def)
  have uR2: "unat (R ?g2) = sr" using uR by (simp add: carry_step_plain)
  show ?thesis
  proof (cases "FULL < L ?g1")
    case True
    then have big: "2 ^ 56 \<le> unat (L g) + sl" using uL by (simp add: FULL_less_iff)
    have "unat (L ?g2) = (unat (L g) + sl) mod 2 ^ 56"
      using True uL by (simp add: carry_step_plain unat_and_FULL)
    also have "\<dots> = (unat (L g) + sl - 2 ^ 56) mod 2 ^ 56" using big by (rule le_mod_geq)
    also have "\<dots> = unat (L g) + sl - 2 ^ 56" using l sr r by simp
    finally have uL2: "unat (L ?g2) = unat (L g) + sl - 2 ^ 56" .
    have "unat (L ?g2) + unat (R ?g2) \<le> 2 ^ 56" using uL2 uR2 l r sr by simp
    moreover have "unat (L ?g2) < 2 ^ 56" using uL2 l r sr by simp
    ultimately show ?thesis unfolding lr_inv_def using uR2 sr r by simp
  next
    case False
    then have small: "unat (L g) + sl < 2 ^ 56" using uL by (simp add: FULL_less_iff)
    have uL2: "unat (L ?g2) = unat (L g) + sl" using False uL by (simp add: carry_step_plain)
    have h2: "last_non_ff_byte ?g2 = last_non_ff_byte g" "first ?g2 = first g"
      using False by (simp_all add: carry_step_plain coding_step_fields)
    have "unat (L ?g2) + unat (R ?g2) \<le> 2 ^ 56"
      if "\<not> first ?g2 \<and> last_non_ff_byte ?g2 = 255"
    proof -
      have "unat (L g) + unat (R g) \<le> 2 ^ 56" using that ff h2 by simp
      then show ?thesis using uL2 uR2 sr by simp
    qed
    then show ?thesis unfolding lr_inv_def using uL2 uR2 small sr r by simp
  qed
qed

lemma renorm_body_lr_inv:
  assumes inv: "lr_inv g" and small: "unat (R g) < 2 ^ 48"
  shows "lr_inv (fst (renorm_body g fp))"
proof -
  let ?g = "fst (renorm_body g fp)"
  define b where "b = (ucast (drop_bit (BBITS - 8) (L g)) :: u8)"
  define l where "l = unat (L g)"
  define r where "r = unat (R g)"
  define q where "q = l div 2 ^ 48"
  define m where "m = l mod 2 ^ 48"
  from inv have d: "l < 2 ^ 56" "0 < r" "r < 2 ^ 56"
    "\<not> first g \<and> last_non_ff_byte g = 255 \<longrightarrow> l + r \<le> 2 ^ 56"
    by (simp_all add: lr_inv_def l_def r_def)
  note fl = renorm_body_plain [of g fp, folded b_def]
  have lq: "l = q * 2 ^ 48 + m" by (simp add: q_def m_def)
  have m48: "m < 2 ^ 48" by (simp add: m_def)
  have ub: "unat b = q" using d(1) by (simp add: b_def q_def l_def top_byte_nat)
  have uL: "unat (L ?g) = m * 256"
    using d(1) by (simp add: fl(1) shiftL_nat m_def l_def)
  have uR: "unat (R ?g) = r * 256"
    using d(3) by (simp add: fl(2) shiftR_nat r_def)
  have c6: "unat (L ?g) + unat (R ?g) \<le> 2 ^ 56"
    if nf: "\<not> first ?g \<and> last_non_ff_byte ?g = 255"
  proof (cases "b = FULLBYTE")
    case False
    then have "last_non_ff_byte ?g = b" by (simp add: fl(6))
    then show ?thesis using False nf by (simp add: FULLBYTE_def)
  next
    case True
    then have "\<not> first g" "last_non_ff_byte g = 255" using nf fl(5,6) by simp_all
    then have "l + r \<le> 2 ^ 56" using d(4) by simp
    moreover have "q = 255" using True ub by (simp add: byte_eq_ff)
    ultimately show ?thesis unfolding uL uR using lq by simp
  qed
  have "unat (L ?g) < 2 ^ 56" using m48 uL by simp
  moreover have "0 < unat (R ?g)" using d(2) uR by simp
  moreover have "unat (R ?g) < 2 ^ 56" using small uR by (simp add: r_def)
  ultimately show ?thesis unfolding lr_inv_def using c6 by blast
qed

lemma renorm_loop_lr_inv:
  "nshift (unat (R g)) k \<Longrightarrow> lr_inv g \<Longrightarrow>
   \<exists>g' fp'. renorm_loop g fp = Some (g', fp') \<and> lr_inv g' \<and>
     unat (R g') = unat (R g) * 256 ^ k \<and> total_c g' = total_c g \<and> D g' = D g"
proof (induction k arbitrary: g fp)
  case 0
  then have "\<not> R g < PART" by (simp add: nshift_0 less_PART_iff)
  then have "renorm_loop g fp = Some (g, fp)" by (subst renorm_loop.simps) simp
  then show ?case using 0 by simp
next
  case (Suc k)
  let ?g = "fst (renorm_body g fp)"
  let ?fp = "snd (renorm_body g fp)"
  from Suc.prems(1) have small: "unat (R g) < 2 ^ 48" and ns: "nshift (unat (R g) * 256) k"
    by (simp_all add: nshift_Suc)
  have inv': "lr_inv ?g" using Suc.prems(2) small by (rule renorm_body_lr_inv)
  have uR: "unat (R ?g) = unat (R g) * 256"
    using small by (simp add: renorm_body_plain shiftR_nat)
  have "R g < PART" using small by (simp add: less_PART_iff)
  then have unf: "renorm_loop g fp = renorm_loop ?g ?fp" by (subst renorm_loop.simps) simp
  have ns': "nshift (unat (R ?g)) k" using ns uR by simp
  obtain g' fp' where r:
    "renorm_loop ?g ?fp = Some (g', fp')" "lr_inv g'"
    "unat (R g') = unat (R ?g) * 256 ^ k" "total_c g' = total_c ?g" "D g' = D ?g"
    using Suc.IH [OF ns' inv'] by blast
  have "unat (R g') = unat (R g) * 256 ^ Suc k" using r(3) uR by simp
  then show ?case using unf r(1,2,4,5) by (simp add: renorm_body_plain)
qed

lemma arith_encode_lr_inv:
  assumes inv: "lr_inv g" and ok: "R_ok g" and tab: "table_ok c (total_c g)"
    and sym: "sym_ok c s"
  shows "\<exists>g' fp'. arith_encode s c g fp = Some (Inr (g', fp')) \<and> lr_inv g' \<and> R_ok g' \<and>
           total_c g' = total_c g \<and> D g' = D g"
proof -
  define T where "T = unat (total_c g)"
  define r where "r = unat (R g)"
  note sb = sym_bounds [OF tab sym]
  have r48: "2 ^ 48 \<le> r" "r < 2 ^ 56" using ok by (simp_all add: R_ok_nat r_def)
  have Tr: "T < r" using sb(3) r48 by (simp add: T_def)
  then have gt: "total_c g < R g" by (simp add: word_less_nat_alt T_def r_def)
  have Tpos: "total_c g \<noteq> 0" using sb(1,2) by (metis less_nat_zero_code le_zero_eq unat_0)
  have s: "s < length c" using sym by (simp add: sym_ok_def)
  let ?g1 = "fst (carry_step (coding_step s c g) fp)"
  let ?fp1 = "snd (carry_step (coding_step s c g) fp)"
  have inv1: "lr_inv ?g1" using inv tab sym gt by (rule carry_coding_lr_inv)
  have uR1: "unat (R ?g1) = step_range c s T r"
    using coding_step_R [OF tab sym gt] by (simp add: carry_step_plain T_def r_def)
  have Tr': "unat (total_c g) < r" using Tr by (simp add: T_def)
  note f = step_range_facts [OF tab sym Tr']
  have sr: "0 < step_range c s T r" "step_range c s T r \<le> r"
    using f by (simp_all add: T_def)
  obtain k where k: "k \<le> 6" "nshift (step_range c s T r) k" using sr(1) nshift_ex by blast
  have ns1: "nshift (unat (R ?g1)) k" using k(2) uR1 by simp
  obtain g' fp' where res:
    "renorm_loop ?g1 ?fp1 = Some (g', fp')" "lr_inv g'"
    "unat (R g') = unat (R ?g1) * 256 ^ k" "total_c g' = total_c ?g1" "D g' = D ?g1"
    using renorm_loop_lr_inv [OF ns1 inv1] by blast
  have run: "arith_encode s c g fp = Some (Inr (g', fp'))"
    using gt s Tpos res(1) by (simp add: arith_encode_def split_def)
  have "step_range c s T r < 2 ^ 56" using sr(2) r48(2) by simp
  then have "unat (R g') < 2 ^ 56" using nshift_bound [OF k(2)] res(3) uR1 by simp
  moreover have "2 ^ 48 \<le> unat (R g')" using k(2) res(3) uR1 by (simp add: nshift_def)
  ultimately have "R_ok g'" by (simp add: R_ok_nat)
  then show ?thesis
    using run res(2,4,5) by (simp add: carry_step_plain coding_step_fields)
qed

lemma encode_all_lr_inv:
  "lr_inv g \<Longrightarrow> R_ok g \<Longrightarrow> table_ok c (total_c g) \<Longrightarrow> \<forall>s\<in>set xs. sym_ok c s \<Longrightarrow>
   \<exists>g' fp'. encode_all xs c g fp = Some (Inr (g', fp')) \<and> lr_inv g' \<and> R_ok g' \<and>
     total_c g' = total_c g \<and> D g' = D g"
proof (induction xs arbitrary: g fp)
  case Nil
  then show ?case by simp
next
  case (Cons s xs)
  have sym: "sym_ok c s" using Cons.prems(4) by simp
  obtain g1 fp1 where a: "arith_encode s c g fp = Some (Inr (g1, fp1))" "lr_inv g1" "R_ok g1"
    "total_c g1 = total_c g" "D g1 = D g"
    using arith_encode_lr_inv [OF Cons.prems(1,2,3) sym] by blast
  have tab1: "table_ok c (total_c g1)" using Cons.prems(3) a(4) by simp
  have rest: "\<forall>s\<in>set xs. sym_ok c s" using Cons.prems(4) by simp
  obtain g' fp' where b: "encode_all xs c g1 fp1 = Some (Inr (g', fp'))" "lr_inv g'" "R_ok g'"
    "total_c g' = total_c g1" "D g' = D g1"
    using Cons.IH [OF a(2,3) tab1 rest] by blast
  show ?case using a b by simp
qed

lemma lr_inv_init: "lr_inv (coder_init t)" "R_ok (coder_init t)"
  by (simp_all add: lr_inv_def R_ok_nat coder_init_def unat_FULL)

lemma cumfreqs_length [simp]: "length (cumfreqs acc fs) = length fs"
  by (induction fs arbitrary: acc) simp_all

lemma cumfreqs_nth:
  "unat acc + sum_list (map unat fs) < 2 ^ 64 \<Longrightarrow> i < length fs \<Longrightarrow>
   unat (cumfreqs acc fs ! i) = unat acc + sum_list (map unat (take (Suc i) fs))"
proof (induction fs arbitrary: acc i)
  case Nil
  then show ?case by simp
next
  case (Cons x xs)
  have "unat acc + unat x < 2 ^ LENGTH(64)" using Cons.prems(1) by simp
  then have u: "unat (acc + x) = unat acc + unat x" by (simp add: unat_add_lem [THEN iffD1])
  show ?case
  proof (cases i)
    case 0
    then show ?thesis using u by simp
  next
    case (Suc j)
    have "unat (cumfreqs (acc + x) xs ! j) = unat (acc + x) + sum_list (map unat (take (Suc j) xs))"
      using Cons.prems Suc u by (intro Cons.IH) simp_all
    then show ?thesis using Suc u by simp
  qed
qed

lemma sum_take_le: "sum_list (map unat (take i fs)) \<le> sum_list (map unat (fs :: u64 list))"
proof -
  have "sum_list (map unat fs) = sum_list (map unat (take i fs)) + sum_list (map unat (drop i fs))"
    by (metis append_take_drop_id map_append sum_list_append)
  then show ?thesis by simp
qed

lemma sum_take_mono:
  "i \<le> j \<Longrightarrow> sum_list (map unat (take i fs)) \<le> sum_list (map unat (take j (fs :: u64 list)))"
proof -
  assume "i \<le> j"
  then have "take i fs = take i (take j fs)" by (simp add: min_def)
  then show ?thesis using sum_take_le [of i "take j fs"] by simp
qed

lemma table_of_freqs:
  assumes ne: "frqs \<noteq> []" and le: "sum_list (map unat frqs) \<le> 2 ^ 41"
  shows "table_ok (cumfreqs 0 frqs) (last (cumfreqs 0 frqs))"
    and "s < length frqs \<Longrightarrow> frqs ! s \<noteq> 0 \<Longrightarrow> sym_ok (cumfreqs 0 frqs) s"
    and "unat (last (cumfreqs 0 frqs)) = sum_list (map unat frqs)"
proof -
  let ?c = "cumfreqs 0 frqs"
  have b: "unat (0::u64) + sum_list (map unat frqs) < 2 ^ 64" using le by simp
  have nth: "unat (?c ! i) = sum_list (map unat (take (Suc i) frqs))" if "i < length frqs" for i
    using cumfreqs_nth [OF b that] by simp
  have cne: "?c \<noteq> []" using ne by (cases frqs) simp_all
  have "sorted ?c"
    unfolding sorted_iff_nth_mono
  proof (intro allI impI)
    fix i j assume ij: "i \<le> j" "j < length ?c"
    then have "unat (?c ! i) \<le> unat (?c ! j)"
      using nth [of i] nth [of j] sum_take_mono [of "Suc i" "Suc j" frqs] by simp
    then show "?c ! i \<le> ?c ! j" by (simp add: word_le_nat_alt)
  qed
  moreover show ul: "unat (last ?c) = sum_list (map unat frqs)"
    using nth [of "length frqs - 1"] ne cne by (simp add: last_conv_nth)
  then have "last ?c \<le> MINR" using le by (simp add: word_le_nat_alt unat_MINR)
  ultimately show "table_ok ?c (last ?c)" using cne by (simp add: table_ok_def)
  show "sym_ok ?c s" if s: "s < length frqs" and nz: "frqs ! s \<noteq> 0"
  proof -
    have pos: "0 < unat (frqs ! s)" using nz by (simp add: unat_gt_0)
    have hi: "unat (?c ! s) = sum_list (map unat (take s frqs)) + unat (frqs ! s)"
      using nth [OF s] s by (simp add: take_Suc_conv_app_nth)
    have lo: "unat (sym_low ?c s) = sum_list (map unat (take s frqs))"
    proof (cases s)
      case 0
      then show ?thesis by (simp add: sym_low_def)
    next
      case (Suc j)
      then show ?thesis using nth [of j] s by (simp add: sym_low_def)
    qed
    show ?thesis using s hi lo pos by (simp add: sym_ok_def word_less_nat_alt)
  qed
qed

lemma dec_search_inv:
  "0 \<le> lo \<Longrightarrow> lo \<le> hi \<Longrightarrow> hi < int (length c) \<Longrightarrow> sorted c \<Longrightarrow>
   (\<forall>j<nat lo. c ! j \<le> t) \<Longrightarrow> t < c ! nat hi \<Longrightarrow>
   lo \<le> dec_search_ideal c t lo hi \<and> dec_search_ideal c t lo hi \<le> hi \<and>
   t < c ! nat (dec_search_ideal c t lo hi) \<and> (\<forall>j<nat (dec_search_ideal c t lo hi). c ! j \<le> t)"
proof (induction c t lo hi rule: dec_search_ideal.induct)
  case (1 c t lo hi)
  show ?case
  proof (cases "lo < hi")
    case False
    with "1.prems"(2) have "lo = hi" by simp
    moreover have "dec_search_ideal c t hi hi = hi" by (subst dec_search_ideal.simps) simp
    ultimately show ?thesis using "1.prems"(5,6) by simp
  next
    case True
    define v where "v = lo + (hi - lo) div 2"
    have v: "lo \<le> v" "v < hi" using True by (auto simp: v_def)
    show ?thesis
    proof (cases "c ! nat v \<le> t")
      case le: True
      have eq: "dec_search_ideal c t lo hi = dec_search_ideal c t (v + 1) hi"
        using True le by (subst dec_search_ideal.simps) (simp add: v_def Let_def)
      have below: "\<forall>j<nat (v + 1). c ! j \<le> t"
      proof (intro allI impI)
        fix j assume j: "j < nat (v + 1)"
        then have "j \<le> nat v" using v "1.prems"(1) by linarith
        moreover have "nat v < length c" using v "1.prems"(1,3) by linarith
        ultimately have "c ! j \<le> c ! nat v"
          using "1.prems"(4) by (rule_tac sorted_nth_mono)
        then show "c ! j \<le> t" using le by (rule order_trans)
      qed
      have p: "0 \<le> v + 1" "v + 1 \<le> hi" using v "1.prems"(1) by linarith+
      note ih = "1.IH"(1) [OF True v_def le p "1.prems"(3,4) below "1.prems"(6)]
      have "lo \<le> dec_search_ideal c t (v + 1) hi" using ih v by linarith
      then show ?thesis unfolding eq using ih by blast
    next
      case gt: False
      have eq: "dec_search_ideal c t lo hi = dec_search_ideal c t lo v"
        using True gt by (subst dec_search_ideal.simps) (simp add: v_def Let_def)
      have p: "v < int (length c)" "t < c ! nat v" using v "1.prems"(3) gt by simp_all
      note ih = "1.IH"(2) [OF True v_def gt "1.prems"(1) v(1) p(1) "1.prems"(4,5) p(2)]
      have "dec_search_ideal c t lo v \<le> hi" using ih v by linarith
      then show ?thesis unfolding eq using ih by blast
    qed
  qed
qed

lemma dec_search_symbol:
  assumes tab: "table_ok c T" and t: "t < T"
  defines "v \<equiv> nat (dec_search_ideal c t 0 (int (length c) - 1))"
  shows "v < length c" and "t < c ! v" and "v = 0 \<or> c ! (v - 1) \<le> t" and "sym_ok c v"
    and "\<And>s. sym_ok c s \<Longrightarrow> sym_low c s \<le> t \<Longrightarrow> t < c ! s \<Longrightarrow> s = v"
proof -
  let ?k = "dec_search_ideal c t 0 (int (length c) - 1)"
  from tab have ne: "c \<noteq> []" and so: "sorted c" and la: "last c = T"
    by (simp_all add: table_ok_def)
  have len: "0 < length c" using ne by simp
  have nl: "nat (int (length c) - 1) = length c - 1" by simp
  have "c ! (length c - 1) = T" using ne la by (simp add: last_conv_nth)
  then have top: "t < c ! nat (int (length c) - 1)" using t unfolding nl by simp
  have p: "(0::int) \<le> 0" "0 \<le> int (length c) - 1" "int (length c) - 1 < int (length c)"
    "\<forall>j<nat 0. c ! j \<le> t"
    using len by simp_all
  note inv = dec_search_inv [OF p(1,2,3) so p(4) top]
  have k0: "0 \<le> ?k" and k1: "?k \<le> int (length c) - 1" and k2: "t < c ! nat ?k"
    and k3: "\<forall>j<nat ?k. c ! j \<le> t"
    using inv by blast+
  show vl: "v < length c" using k0 k1 len unfolding v_def by linarith
  show tv: "t < c ! v" using k2 by (simp only: v_def)
  have below: "\<forall>j<v. c ! j \<le> t" using k3 by (simp only: v_def)
  show pv: "v = 0 \<or> c ! (v - 1) \<le> t"
  proof (cases v)
    case 0
    then show ?thesis by simp
  next
    case (Suc j)
    then have "j < v" by simp
    then have "c ! j \<le> t" using below by blast
    then show ?thesis using Suc by simp
  qed
  have lowv: "sym_low c v \<le> t"
  proof (cases "v = 0")
    case True
    then show ?thesis by (simp add: sym_low_def)
  next
    case False
    then show ?thesis using pv by (simp add: sym_low_def)
  qed
  show "sym_ok c v" unfolding sym_ok_def using vl tv lowv by (meson le_less_trans)
  show "s = v" if s: "sym_ok c s" "sym_low c s \<le> t" "t < c ! s" for s
  proof (rule ccontr)
    assume ne: "s \<noteq> v"
    have sl: "s < length c" using s(1) by (simp add: sym_ok_def)
    show False
    proof (cases "s < v")
      case True
      then have "c ! s \<le> t" using below by blast
      then show False using s(3) by simp
    next
      case False
      then have vs: "v < s" using ne by simp
      then have "v \<le> s - 1" "s - 1 < length c" using sl by simp_all
      then have "c ! v \<le> c ! (s - 1)" using so by (rule_tac sorted_nth_mono)
      moreover have "sym_low c s = c ! (s - 1)" using vs by (simp add: sym_low_def)
      ultimately have "c ! v \<le> t" using s(2) by simp
      then show False using tv by simp
    qed
  qed
qed

lemma to_int_id: "- (2 ^ 31) \<le> x \<Longrightarrow> x < 2 ^ 31 \<Longrightarrow> to_int x = x"
  unfolding to_int_def by (rule signed_take_bit_int_eq_self)

lemma to_int_less: "to_int x < 2 ^ 31"
  unfolding to_int_def by (rule signed_take_bit_int_less_exp)

lemma c_div_2: "0 \<le> a \<Longrightarrow> c_div a 2 = a div 2"
  by (simp add: c_div_def sgn_if)

lemma size_t_of_int:
  assumes "0 \<le> x" and "x < 2 ^ 31"
  shows "unat (word_of_int x :: u64) = nat x" and "uint (word_of_int x :: u64) = x"
    and "uint ((word_of_int x :: u64) + 1) = x + 1"
proof -
  have x: "x < 2 ^ 64" "x + 1 < 2 ^ 64" using assms(2) by simp_all
  show u: "uint (word_of_int x :: u64) = x"
    using assms(1) x(1) by (simp add: uint_word_of_int take_bit_int_eq_self)
  then show "unat (word_of_int x :: u64) = nat x" by (simp add: unat_eq_nat_uint)
  have "(word_of_int x :: u64) + 1 = word_of_int (x + 1)" by simp
  then show "uint ((word_of_int x :: u64) + 1) = x + 1"
    using assms(1) x(2) by (simp only: uint_word_of_int) (simp add: take_bit_int_eq_self)
qed

lemma dec_search_ideal_range:
  "lo \<le> dec_search_ideal c t lo hi \<and> dec_search_ideal c t lo hi \<le> max lo hi"
proof (induction c t lo hi rule: dec_search_ideal.induct)
  case (1 c t lo hi)
  show ?case
  proof (cases "lo < hi")
    case False
    then have "dec_search_ideal c t lo hi = lo" by (subst dec_search_ideal.simps) simp
    then show ?thesis by simp
  next
    case True
    define v where "v = lo + (hi - lo) div 2"
    have v: "lo \<le> v" "v < hi" using True by (auto simp: v_def)
    show ?thesis
    proof (cases "c ! nat v \<le> t")
      case le: True
      have eq: "dec_search_ideal c t lo hi = dec_search_ideal c t (v + 1) hi"
        using True le by (subst dec_search_ideal.simps) (simp add: v_def Let_def)
      show ?thesis unfolding eq using "1.IH"(1) [OF True v_def le] v by linarith
    next
      case gt: False
      have eq: "dec_search_ideal c t lo hi = dec_search_ideal c t lo v"
        using True gt by (subst dec_search_ideal.simps) (simp add: v_def Let_def)
      show ?thesis unfolding eq using "1.IH"(2) [OF True v_def gt] v by linarith
    qed
  qed
qed

lemma dec_search_eq:
  "0 \<le> lo \<Longrightarrow> hi < 2 ^ 31 \<Longrightarrow> dec_search c t lo hi = Some (dec_search_ideal c t lo hi)"
proof (induction c t lo hi rule: dec_search_ideal.induct)
  case (1 c t lo hi)
  show ?case
  proof (cases "lo < hi")
    case False
    then have "dec_search_ideal c t lo hi = lo" by (subst dec_search_ideal.simps) simp
    moreover have "dec_search c t lo hi = Some lo" using False by (subst dec_search.simps) simp
    ultimately show ?thesis by simp
  next
    case True
    define v where "v = lo + (hi - lo) div 2"
    have v: "lo \<le> v" "v < hi" using True by (auto simp: v_def)
    have d: "0 \<le> hi - lo" "hi - lo < 2 ^ 31" using True "1.prems" by linarith+
    have "to_int (hi - lo) = hi - lo" using d by (intro to_int_id) linarith+
    then have "lo + c_div (to_int (hi - lo)) 2 = v" using d(1) by (simp add: c_div_2 v_def)
    moreover have vr: "0 \<le> v" "v < 2 ^ 31" using v "1.prems" by linarith+
    moreover have tv: "to_int v = v" using vr by (intro to_int_id) linarith+
    ultimately have w: "(word_of_int (to_int (lo + c_div (to_int (hi - lo)) 2)) :: u64) =
        word_of_int v" by simp
    note sz = size_t_of_int [OF vr]
    have v1: "to_int (v + 1) = v + 1" using vr v "1.prems" by (intro to_int_id) linarith+
    show ?thesis
    proof (cases "c ! nat v \<le> t")
      case le: True
      have "dec_search c t lo hi = dec_search c t (v + 1) hi"
        using True le by (subst dec_search.simps) (simp add: w sz v1 Let_def)
      moreover have "dec_search_ideal c t lo hi = dec_search_ideal c t (v + 1) hi"
        using True le by (subst dec_search_ideal.simps) (simp add: v_def Let_def)
      moreover have "dec_search c t (v + 1) hi = Some (dec_search_ideal c t (v + 1) hi)"
        using "1.IH"(1) [OF True v_def le] vr(1) "1.prems"(2) by simp
      ultimately show ?thesis by simp
    next
      case gt: False
      have "dec_search c t lo hi = dec_search c t lo v"
        using True gt by (subst dec_search.simps) (simp add: w sz tv Let_def)
      moreover have "dec_search_ideal c t lo hi = dec_search_ideal c t lo v"
        using True gt by (subst dec_search_ideal.simps) (simp add: v_def Let_def)
      moreover have "dec_search c t lo v = Some (dec_search_ideal c t lo v)"
        using "1.IH"(2) [OF True v_def gt "1.prems"(1)] vr(2) by simp
      ultimately show ?thesis by simp
    qed
  qed
qed

lemma decoder_start_loop_plain:
  "R (fst (decoder_start_loop k g fp)) = R g \<and> total_c (fst (decoder_start_loop k g fp)) = total_c g"
  by (induction k arbitrary: g fp) (simp_all add: split_def Let_def)

lemma decoder_start_plain:
  "R (fst (decoder_start g fp)) = R g" "total_c (fst (decoder_start g fp)) = total_c g"
  using decoder_start_loop_plain [of BBYTES "g\<lparr>D := 0\<rparr>" fp] by (simp_all add: decoder_start_def)

lemma dec_renorm_loop_R:
  "nshift (unat (R g)) k \<Longrightarrow>
   \<exists>g' fp'. dec_renorm_loop g fp = Some (g', fp') \<and> unat (R g') = unat (R g) * 256 ^ k \<and>
     total_c g' = total_c g"
proof (induction k arbitrary: g fp)
  case 0
  then have "\<not> R g < PART" by (simp add: nshift_0 less_PART_iff)
  then have "dec_renorm_loop g fp = Some (g, fp)" by (subst dec_renorm_loop.simps) simp
  then show ?case by simp
next
  case (Suc k)
  let ?g = "g\<lparr>R := push_bit 8 (R g),
               D := (push_bit 8 (D g) AND FULL) + word_of_int (fst (fgetc fp))\<rparr>"
  from Suc.prems have small: "unat (R g) < 2 ^ 48" and ns: "nshift (unat (R g) * 256) k"
    by (simp_all add: nshift_Suc)
  have uR: "unat (R ?g) = unat (R g) * 256" using small by (simp add: shiftR_nat)
  have "R g < PART" using small by (simp add: less_PART_iff)
  then have unf: "dec_renorm_loop g fp = dec_renorm_loop ?g (snd (fgetc fp))"
    by (subst dec_renorm_loop.simps) simp
  have ns': "nshift (unat (R ?g)) k" using ns uR by simp
  obtain g' fp' where r: "dec_renorm_loop ?g (snd (fgetc fp)) = Some (g', fp')"
    "unat (R g') = unat (R ?g) * 256 ^ k" "total_c g' = total_c ?g"
    using Suc.IH [OF ns'] by blast
  have "unat (R g') = unat (R g) * 256 ^ Suc k" using r(2) uR by simp
  then show ?case using unf r(1,3) by simp
qed

lemma dec_target_less:
  assumes "total_c g \<noteq> 0"
  shows "dec_target g < total_c g"
proof (cases "D g div (R g div total_c g) \<ge> total_c g")
  case True
  have "total_c g - 1 < total_c g" using assms by (simp add: word_less_nat_alt unat_minus_one unat_gt_0)
  then show ?thesis using True by (simp add: dec_target_def)
next
  case False
  then show ?thesis by (simp add: dec_target_def)
qed

lemma arith_decode_cases:
  fixes c :: "u64 list"
  assumes pos: "total_c g \<noteq> 0" and sc: "0 < R g div total_c g"
  defines "v \<equiv> nat (dec_search_ideal c (dec_target g) 0 (to_int (int (length c) - 1)))"
  shows "arith_decode c g fp =
     (if \<not> (v = 0 \<or> c ! (v - 1) \<le> dec_target g) then Some (Inl (AssertFail 247))
      else if \<not> v < length c then Some (Inl (AssertFail 248))
      else if \<not> dec_target g < c ! v then Some (Inl (AssertFail 249))
      else if \<not> D (dec_update c g v) \<le> R (dec_update c g v) then Some (Inl (AssertFail 266))
      else (case dec_renorm_loop (dec_update c g v) fp of
              None \<Rightarrow> None
            | Some (g3, fp3) \<Rightarrow>
                if \<not> D g3 \<le> R g3 then Some (Inl (AssertFail 275))
                else Some (Inr (v, g3, fp3))))"
proof -
  define h where "h = to_int (int (length c) - 1)"
  define k where "k = dec_search_ideal c (dec_target g) 0 h"
  have h: "h < 2 ^ 31" unfolding h_def by (rule to_int_less)
  have run: "dec_search c (dec_target g) 0 h = Some k"
    unfolding k_def using h by (intro dec_search_eq) simp_all
  have "0 \<le> k \<and> k \<le> max 0 h" unfolding k_def by (rule dec_search_ideal_range)
  then have k: "0 \<le> k" "k < 2 ^ 31" using h by (simp_all add: max_def split: if_splits)
  have vk: "unat (word_of_int k :: u64) = v"
    using size_t_of_int(1) [OF k] by (simp add: v_def k_def h_def)
  have low: "(if v = 0 then 0 else c ! (v - 1)) = sym_low c v" by (simp add: sym_low_def)
  have t: "(if total_c g \<le> D g div (R g div total_c g) then total_c g - 1
            else D g div (R g div total_c g)) = dec_target g"
    by (simp add: dec_target_def)
  show ?thesis
    unfolding arith_decode_def Let_def t h_def [symmetric] run option.case vk low
    using pos sc by (simp add: dec_update_def)
qed

lemma arith_decode_unfold:
  assumes tab: "table_ok c (total_c g)" and pos: "total_c g \<noteq> 0"
    and sc: "0 < R g div total_c g" and len: "length c \<le> 2 ^ 31"
  defines "v \<equiv> nat (dec_search_ideal c (dec_target g) 0 (int (length c) - 1))"
  shows "arith_decode c g fp =
     (if \<not> D (dec_update c g v) \<le> R (dec_update c g v) then Some (Inl (AssertFail 266))
      else (case dec_renorm_loop (dec_update c g v) fp of
              None \<Rightarrow> None
            | Some (g3, fp3) \<Rightarrow>
                if \<not> D g3 \<le> R g3 then Some (Inl (AssertFail 275))
                else Some (Inr (v, g3, fp3))))"
proof -
  note ds = dec_search_symbol [OF tab dec_target_less [OF pos], folded v_def]
  have "c \<noteq> []" using tab by (simp add: table_ok_def)
  then have "0 < length c" by simp
  then have "- (2 ^ 31) \<le> int (length c) - 1" "int (length c) - 1 < 2 ^ 31"
    using len by simp_all
  then have h: "to_int (int (length c) - 1) = int (length c) - 1" by (rule to_int_id)
  have e: "(v = 0 \<or> c ! (v - 1) \<le> dec_target g) = True" "(v < length c) = True"
    "(dec_target g < c ! v) = True"
    using ds(1,2,3) by simp_all
  show ?thesis
    unfolding arith_decode_cases [OF pos sc] h v_def [symmetric] e
    by (simp only: not_True_eq_False if_False)
qed

lemma dec_update_R:
  assumes tab: "table_ok c (total_c g)" and sym: "sym_ok c v" and gt: "total_c g < R g"
  shows "unat (R (dec_update c g v)) = step_range c v (unat (total_c g)) (unat (R g))"
    and "total_c (dec_update c g v) = total_c g"
proof -
  have "R (dec_update c g v) = R (coding_step v c g)"
    by (simp add: dec_update_def coding_step_def Let_def sym_low_def)
  then show "unat (R (dec_update c g v)) = step_range c v (unat (total_c g)) (unat (R g))"
    using coding_step_R [OF tab sym gt] by simp
  show "total_c (dec_update c g v) = total_c g" by (simp add: dec_update_def)
qed

lemma R_ok_scale:
  assumes ok: "R_ok g" and le: "total_c g \<le> MINR"
  shows "total_c g < R g" and "total_c g \<noteq> 0 \<Longrightarrow> 0 < R g div total_c g"
proof -
  have r: "2 ^ 48 \<le> unat (R g)" using ok by (simp add: R_ok_nat)
  have T: "unat (total_c g) \<le> 2 ^ 41" using le by (simp add: word_le_nat_alt unat_MINR)
  show gt: "total_c g < R g" using r T by (simp add: word_less_nat_alt)
  show "0 < R g div total_c g" if "total_c g \<noteq> 0"
  proof -
    have "0 < unat (total_c g)" using that by (simp add: unat_gt_0)
    moreover have "unat (total_c g) \<le> unat (R g)" using r T by simp
    ultimately have "0 < unat (R g) div unat (total_c g)" by (simp add: div_greater_zero_iff)
    then show ?thesis by (simp add: word_less_nat_alt unat_div)
  qed
qed

lemma arith_decode_R:
  assumes ok: "R_ok g" and tab: "table_ok c (total_c g)" and pos: "total_c g \<noteq> 0"
  shows "(\<exists>n. arith_decode c g fp = Some (Inl (AssertFail n)) \<and>
              (n = 266 \<or> n = 275 \<or> 2 ^ 31 < length c \<and> (n = 247 \<or> n = 248 \<or> n = 249))) \<or>
         (\<exists>v g' fp'. arith_decode c g fp = Some (Inr (v, g', fp')) \<and> R_ok g' \<and>
            total_c g' = total_c g \<and> sym_ok c v)"
proof -
  define v where "v = nat (dec_search_ideal c (dec_target g) 0 (to_int (int (length c) - 1)))"
  define T where "T = unat (total_c g)"
  define r where "r = unat (R g)"
  have le: "total_c g \<le> MINR" using tab by (simp add: table_ok_def)
  note sc = R_ok_scale [OF ok le]
  note unf = arith_decode_cases [OF pos sc(2) [OF pos], of c fp, folded v_def]
  have pass: "(v = 0 \<or> c ! (v - 1) \<le> dec_target g) \<and> v < length c \<and> dec_target g < c ! v"
    if len: "length c \<le> 2 ^ 31"
  proof -
    have "c \<noteq> []" using tab by (simp add: table_ok_def)
    then have "0 < length c" by simp
    then have "- (2 ^ 31) \<le> int (length c) - 1" "int (length c) - 1 < 2 ^ 31"
      using len by simp_all
    then have "to_int (int (length c) - 1) = int (length c) - 1" by (rule to_int_id)
    then have "v = nat (dec_search_ideal c (dec_target g) 0 (int (length c) - 1))"
      by (simp add: v_def)
    then show ?thesis using dec_search_symbol(1,2,3) [OF tab dec_target_less [OF pos]] by simp
  qed
  show ?thesis
  proof (cases "(v = 0 \<or> c ! (v - 1) \<le> dec_target g) \<and> v < length c \<and> dec_target g < c ! v")
    case False
    then have big: "2 ^ 31 < length c" using pass by linarith
    have "arith_decode c g fp = Some (Inl (AssertFail 247)) \<or>
        arith_decode c g fp = Some (Inl (AssertFail 248)) \<or>
        arith_decode c g fp = Some (Inl (AssertFail 249))"
    proof (cases "v = 0 \<or> c ! (v - 1) \<le> dec_target g")
      case f1: False
      then show ?thesis unfolding unf by simp
    next
      case t1: True
      show ?thesis
      proof (cases "v < length c")
        case f2: False
        then show ?thesis unfolding unf using t1 by simp
      next
        case t2: True
        then have "\<not> dec_target g < c ! v" using False t1 by blast
        then show ?thesis unfolding unf using t1 t2 by simp
      qed
    qed
    then show ?thesis using big by auto
  next
    case True
    then have "sym_low c v \<le> dec_target g" by (auto simp: sym_low_def)
    then have sym: "sym_ok c v" using True unfolding sym_ok_def by (meson le_less_trans)
    note uR = dec_update_R [OF tab sym sc(1)]
    have Tr: "unat (total_c g) < r" using sc(1) by (simp add: word_less_nat_alt r_def)
    note f = step_range_facts [OF tab sym Tr]
    have r56: "r < 2 ^ 56" using ok by (simp add: R_ok_nat r_def)
    have sr: "0 < unat (R (dec_update c g v))" "unat (R (dec_update c g v)) < 2 ^ 56"
      using f uR(1) r56 by (simp_all add: r_def)
    obtain k where k: "k \<le> 6" "nshift (unat (R (dec_update c g v))) k"
      using sr(1) nshift_ex by blast
    obtain g3 fp3 where l: "dec_renorm_loop (dec_update c g v) fp = Some (g3, fp3)"
      "unat (R g3) = unat (R (dec_update c g v)) * 256 ^ k" "total_c g3 = total_c (dec_update c g v)"
      using dec_renorm_loop_R [OF k(2)] by blast
    have "unat (R g3) < 2 ^ 56" using nshift_bound [OF k(2) sr(2)] l(2) by simp
    moreover have "2 ^ 48 \<le> unat (R g3)" using k(2) l(2) by (simp add: nshift_def)
    ultimately have ok3: "R_ok g3" by (simp add: R_ok_nat)
    show ?thesis
    proof (cases "D (dec_update c g v) \<le> R (dec_update c g v) \<and> D g3 \<le> R g3")
      case yes: True
      then have "arith_decode c g fp = Some (Inr (v, g3, fp3))" using unf l(1) True by simp
      then show ?thesis using ok3 l(3) uR(2) sym by simp
    next
      case no: False
      then have "arith_decode c g fp = Some (Inl (AssertFail 266)) \<or>
                 arith_decode c g fp = Some (Inl (AssertFail 275))"
        using unf l(1) True by auto
      then show ?thesis by auto
    qed
  qed
qed

lemma decode_n_R:
  "R_ok g \<Longrightarrow> table_ok c (total_c g) \<Longrightarrow> total_c g \<noteq> 0 \<Longrightarrow>
   (\<exists>n. decode_n k c g fp = Some (Inl (AssertFail n)) \<and>
        (n = 266 \<or> n = 275 \<or> 2 ^ 31 < length c \<and> (n = 247 \<or> n = 248 \<or> n = 249))) \<or>
   (\<exists>vs g' fp'. decode_n k c g fp = Some (Inr (vs, g', fp')) \<and> R_ok g' \<and>
      total_c g' = total_c g \<and> (\<forall>v\<in>set vs. sym_ok c v))"
proof (induction k arbitrary: g fp)
  case 0
  then show ?case by simp
next
  case (Suc k)
  consider (fail) n where "arith_decode c g fp = Some (Inl (AssertFail n))"
      "n = 266 \<or> n = 275 \<or> 2 ^ 31 < length c \<and> (n = 247 \<or> n = 248 \<or> n = 249)"
    | (ok) v g1 fp1 where "arith_decode c g fp = Some (Inr (v, g1, fp1))" "R_ok g1"
        "total_c g1 = total_c g" "sym_ok c v"
    using arith_decode_R [OF Suc.prems, of fp] by blast
  then show ?case
  proof cases
    case fail
    then show ?thesis by simp
  next
    case ok
    have tab1: "table_ok c (total_c g1)" "total_c g1 \<noteq> 0" using Suc.prems ok(3) by simp_all
    consider (fail2) n where "decode_n k c g1 fp1 = Some (Inl (AssertFail n))"
        "n = 266 \<or> n = 275 \<or> 2 ^ 31 < length c \<and> (n = 247 \<or> n = 248 \<or> n = 249)"
      | (ok2) vs g' fp' where "decode_n k c g1 fp1 = Some (Inr (vs, g', fp'))" "R_ok g'"
          "total_c g' = total_c g1" "\<forall>v\<in>set vs. sym_ok c v"
      using Suc.IH [OF ok(2) tab1, of fp1] by blast
    then show ?thesis
    proof cases
      case fail2
      then show ?thesis using ok(1) by simp
    next
      case ok2
      then show ?thesis using ok by simp
    qed
  qed
qed

lemma no_carry_when_tight:
  assumes inv: "lr_inv g" and tab: "table_ok c (total_c g)" and sym: "sym_ok c s"
    and gt: "total_c g < R g" and tight: "unat (L g) + unat (R g) \<le> 2 ^ 56"
  shows "\<not> FULL < L (coding_step s c g)"
proof -
  from inv have l: "unat (L g) < 2 ^ 56" and r: "unat (R g) < 2 ^ 56"
    by (simp_all add: lr_inv_def)
  have Tr: "unat (total_c g) < unat (R g)" using gt by (simp add: word_less_nat_alt)
  note f = step_range_facts [OF tab sym Tr]
  have "unat (L (coding_step s c g)) =
        unat (L g) + step_low c s (unat (total_c g)) (unat (R g))"
    using coding_step_L [OF tab sym gt r l] .
  then have "unat (L (coding_step s c g)) < 2 ^ 56" using f tight by linarith
  then show ?thesis by (simp add: FULL_less_iff)
qed

subsection \<open>Decoding what the encoder wrote\<close>

lemma enc_inv_lr_inv: "enc_inv g fp \<Longrightarrow> lr_inv g"
  using enc_invD [of g fp] by (simp add: lr_inv_def)

lemma encode_wraps_Cons:
  assumes inv: "enc_inv g fp" and big: "PART \<le> R g" and tab: "table_ok c (total_c g)"
    and sym: "sym_ok c s" and nw: "\<not> encode_wraps (s # xs) c g fp"
  shows "renorm_wraps (fst (carry_step (coding_step s c g) fp))
                      (snd (carry_step (coding_step s c g) fp)) \<noteq> Some True"
    and "arith_encode s c g fp = Some (Inr (g1, fp1)) \<Longrightarrow> \<not> encode_wraps xs c g1 fp1"
proof -
  have ok: "R_ok g" using big enc_invD(2) [OF inv] by (simp add: R_ok_nat PART_le_iff)
  obtain ga fpa where run: "arith_encode s c g fp = Some (Inr (ga, fpa))"
    using arith_encode_lr_inv [OF enc_inv_lr_inv [OF inv] ok tab sym] by blast
  show "renorm_wraps (fst (carry_step (coding_step s c g) fp))
                     (snd (carry_step (coding_step s c g) fp)) \<noteq> Some True"
    using nw run by simp
  show "\<not> encode_wraps xs c g1 fp1" if "arith_encode s c g fp = Some (Inr (g1, fp1))"
    using nw that by simp
qed

lemma encode_all_inv:
  "enc_inv g fp \<Longrightarrow> PART \<le> R g \<Longrightarrow> table_ok c (total_c g) \<Longrightarrow> \<forall>s\<in>set xs. sym_ok c s \<Longrightarrow>
   \<not> encode_wraps xs c g fp \<Longrightarrow>
   \<exists>g' fp' k. encode_all xs c g fp = Some (Inr (g', fp')) \<and> enc_inv g' fp' \<and> PART \<le> R g' \<and>
     length (fp' @ pending g') = length (fp @ pending g) + k \<and> k \<le> 6 * length xs \<and>
     low_bound g fp * 256 ^ k \<le> low_bound g' fp' \<and>
     low_bound g' fp' + unat (R g') \<le> (low_bound g fp + unat (R g)) * 256 ^ k \<and>
     total_c g' = total_c g"
proof (induction xs arbitrary: g fp)
  case Nil
  have "encode_all [] c g fp = Some (Inr (g, fp)) \<and> enc_inv g fp \<and> PART \<le> R g \<and>
     length (fp @ pending g) = length (fp @ pending g) + 0 \<and> 0 \<le> 6 * length ([]::nat list) \<and>
     low_bound g fp * 256 ^ 0 \<le> low_bound g fp \<and>
     low_bound g fp + unat (R g) \<le> (low_bound g fp + unat (R g)) * 256 ^ 0 \<and>
     total_c g = total_c g"
    using Nil by simp
  then show ?case by blast
next
  case (Cons s xs)
  define A where "A = low_bound g fp"
  define r where "r = unat (R g)"
  define T where "T = unat (total_c g)"
  define sl where "sl = step_low c s T r"
  define sr where "sr = step_range c s T r"
  have sym: "sym_ok c s" using Cons.prems(4) by simp
  note ew = encode_wraps_Cons [OF Cons.prems(1,2,3) sym Cons.prems(5)]
  obtain g1 fp1 k1 where a: "arith_encode s c g fp = Some (Inr (g1, fp1))" "enc_inv g1 fp1"
    "PART \<le> R g1" "k1 \<le> 6"
    "low_bound g1 fp1 = (A + sl) * 256 ^ k1"
    "length (fp1 @ pending g1) = length (fp @ pending g) + k1"
    "unat (R g1) = sr * 256 ^ k1" "total_c g1 = total_c g"
    using arith_encode_inv [OF Cons.prems(1,2,3) sym ew(1)]
    unfolding A_def sl_def sr_def T_def r_def by blast
  have r48: "2 ^ 48 \<le> r" using Cons.prems(2) by (simp add: PART_le_iff r_def)
  have "unat (total_c g) \<le> 2 ^ 41" using sym_bounds(3) [OF Cons.prems(3) sym] .
  then have Tr: "unat (total_c g) < r" using r48 by simp
  have f: "sl + sr \<le> r"
    using step_range_facts(2) [OF Cons.prems(3) sym Tr] by (simp add: sl_def sr_def T_def)
  have tab1: "table_ok c (total_c g1)" using Cons.prems(3) a(8) by simp
  have rest: "\<forall>s\<in>set xs. sym_ok c s" using Cons.prems(4) by simp
  have len1: "\<not> encode_wraps xs c g1 fp1" using a(1) by (rule ew(2))
  obtain g' fp' k2 where b: "encode_all xs c g1 fp1 = Some (Inr (g', fp'))" "enc_inv g' fp'"
    "PART \<le> R g'" "length (fp' @ pending g') = length (fp1 @ pending g1) + k2"
    "k2 \<le> 6 * length xs"
    "low_bound g1 fp1 * 256 ^ k2 \<le> low_bound g' fp'"
    "low_bound g' fp' + unat (R g') \<le> (low_bound g1 fp1 + unat (R g1)) * 256 ^ k2"
    "total_c g' = total_c g1"
    using Cons.IH [OF a(2,3) tab1 rest len1] by blast
  have run: "encode_all (s # xs) c g fp = Some (Inr (g', fp'))" using a(1) b(1) by simp
  have lo1: "A * 256 ^ k1 \<le> low_bound g1 fp1" unfolding a(5) by simp
  have "A * 256 ^ k1 * 256 ^ k2 \<le> low_bound g1 fp1 * 256 ^ k2"
    using lo1 by (rule mult_le_mono1)
  then have lo': "A * 256 ^ k1 * 256 ^ k2 \<le> low_bound g' fp'"
    using b(6) by (rule order_trans)
  have pw: "(256::nat) ^ (k1 + k2) = 256 ^ k1 * 256 ^ k2" by (rule power_add)
  have lo: "A * 256 ^ (k1 + k2) \<le> low_bound g' fp'"
    unfolding pw mult.assoc [symmetric] by (rule lo')
  have "low_bound g1 fp1 + unat (R g1) = (A + sl + sr) * 256 ^ k1"
    unfolding a(5,7) by (simp add: add_mult_distrib)
  also have "\<dots> \<le> (A + r) * 256 ^ k1" using f by simp
  finally have "(low_bound g1 fp1 + unat (R g1)) * 256 ^ k2 \<le> (A + r) * 256 ^ k1 * 256 ^ k2"
    by (rule mult_le_mono1)
  with b(7) have hi': "low_bound g' fp' + unat (R g') \<le> (A + r) * 256 ^ k1 * 256 ^ k2"
    by (rule order_trans)
  have hi: "low_bound g' fp' + unat (R g') \<le> (A + r) * 256 ^ (k1 + k2)"
    unfolding pw mult.assoc [symmetric] by (rule hi')
  have len: "length (fp' @ pending g') = length (fp @ pending g) + (k1 + k2)"
    using a(6) b(4) by simp
  have kk: "k1 + k2 \<le> 6 * length (s # xs)" using a(4) b(5) by simp
  have tot: "total_c g' = total_c g" using a(8) b(8) by simp
  show ?case
    using run b(2,3) len kk lo hi tot unfolding A_def r_def by blast
qed

lemma fputc_pair: "fputc b (g, fp) = (g\<lparr>bytes_out := bytes_out g + 1\<rparr>, fp @ [b])"
  by (simp add: fputc_def)

lemma fold_fputc:
  "fold (\<lambda>i. fputc (f i)) is (g, fp) =
     (g\<lparr>bytes_out := bytes_out g + of_nat (length is)\<rparr>, fp @ map f is)"
proof (induction "is" arbitrary: g fp)
  case Nil
  then show ?case by simp
next
  case (Cons i "is")
  show ?case by (simp add: fputc_pair Cons.IH add.assoc)
qed

lemma val_bytes_Cons: "val_bytes (b # bs) = unat b * 256 ^ length bs + val_bytes bs"
  using val_bytes_append [of "[b]" bs] by (simp add: val_bytes_def)

lemma val_bytes_digits:
  assumes "\<And>i. unat (f i :: u8) = (n div 256 ^ i) mod 256"
  shows "val_bytes (map f (rev [0..<k])) = n mod 256 ^ k"
proof (induction k)
  case 0
  then show ?case by simp
next
  case (Suc k)
  have "val_bytes (map f (rev [0..<Suc k])) = unat (f k) * 256 ^ k + val_bytes (map f (rev [0..<k]))"
    by (simp add: val_bytes_Cons)
  also have "\<dots> = (n div 256 ^ k) mod 256 * 256 ^ k + n mod 256 ^ k"
    using Suc assms by simp
  also have "\<dots> = 256 ^ k * (n div 256 ^ k mod 256) + n mod 256 ^ k"
    by (simp only: mult.commute)
  also have "\<dots> = n mod (256 ^ k * 256)"
    by (rule mod_mult2_eq [symmetric])
  also have "\<dots> = n mod 256 ^ Suc k"
    by (simp only: power_Suc2)
  finally show ?case .
qed

lemma unat_byte_of:
  "unat (ucast (drop_bit (8 * i) (w::u64) AND 255) :: u8) = (unat w div 256 ^ i) mod 256"
proof -
  have "(255::u64) = mask 8" by (simp add: mask_eq_exp_minus_1)
  then have "drop_bit (8 * i) w AND 255 = take_bit 8 (drop_bit (8 * i) w)"
    by (simp only: take_bit_eq_mask)
  moreover have "take_bit LENGTH(64) (unat w) = unat w"
    by (rule take_bit_nat_eq_self) (rule unsigned_less)
  ultimately have "unat (drop_bit (8 * i) w AND 255) = take_bit 8 (drop_bit (8 * i) (unat w))"
    by (simp only: unsigned_take_bit_eq unsigned_drop_bit_eq)
  also have "\<dots> = (unat w div 256 ^ i) mod 256"
    by (simp add: take_bit_eq_mod drop_bit_eq_div power_mult)
  finally have a: "unat (drop_bit (8 * i) w AND 255) = (unat w div 256 ^ i) mod 256" .
  have "unat (ucast (drop_bit (8 * i) w AND 255) :: u8) =
        take_bit 8 (unat (drop_bit (8 * i) w AND 255))"
    by (simp only: unsigned_ucast_eq) simp
  also have "\<dots> = (unat w div 256 ^ i) mod 256" unfolding a by (simp add: take_bit_eq_mod)
  finally show ?thesis .
qed

lemma encoder_close_stream:
  assumes "unat (L g) < 2 ^ 56"
  shows "val_bytes (snd (encoder_close g fp)) = low_bound g fp"
    and "length (snd (encoder_close g fp)) = length (fp @ pending g) + 7"
proof -
  let ?f = "\<lambda>i. (ucast (drop_bit (8 * i) (L g) AND 255) :: u8)"
  have eq: "snd (encoder_close g fp) = (fp @ pending g) @ map ?f (rev [0..<7])"
    unfolding encoder_close_def flush_ff_loop_eq BBYTES_def
    by (cases "first g") (simp_all add: fputc_pair flush_ff_loop_eq fold_fputc pending_def)
  have d: "val_bytes (map ?f (rev [0..<7])) = unat (L g) mod 256 ^ 7"
    by (rule val_bytes_digits) (rule unat_byte_of)
  have "(256::nat) ^ 7 = 2 ^ 56" by simp
  then have d': "val_bytes (map ?f (rev [0..<7])) = unat (L g)" using d assms by simp
  have "val_bytes (snd (encoder_close g fp)) =
        val_bytes (fp @ pending g) * 256 ^ 7 + val_bytes (map ?f (rev [0..<7]))"
    unfolding eq by (subst val_bytes_append) simp
  then show "val_bytes (snd (encoder_close g fp)) = low_bound g fp"
    unfolding d' low_bound_def by simp
  show "length (snd (encoder_close g fp)) = length (fp @ pending g) + 7"
    unfolding eq by simp
qed

lemma unat_byte_word: "unat (word_of_int (uint (b::u8)) :: u64) = unat b"
proof -
  have "(word_of_int (uint b) :: u64) = ucast b" by simp
  moreover have "unat (ucast b :: u64) = unat b"
    by (simp add: unsigned_ucast_eq take_bit_nat_eq_self_iff)
       (rule less_trans [OF unsigned_less], simp)
  ultimately show ?thesis by simp
qed

lemma unat_add_byte:
  assumes "unat (w::u64) + unat (b::u8) < 2 ^ 64"
  shows "unat (w + word_of_int (uint b)) = unat w + unat b"
proof -
  have "unat w + unat (word_of_int (uint b) :: u64) < 2 ^ LENGTH(64)"
    using assms by (simp only: unat_byte_word) simp
  then have "unat (w + word_of_int (uint b)) = unat w + unat (word_of_int (uint b) :: u64)"
    by (rule unat_add_lem [THEN iffD1])
  then show ?thesis by (simp only: unat_byte_word)
qed

lemma unat_byte_less: "unat (b::u8) < 256"
  using unsigned_less [of b, where 'a = nat] by simp

lemma dec_renorm_loop_D:
  "nshift (unat (R g)) k \<Longrightarrow> unat (D g) < unat (R g) \<Longrightarrow> k \<le> length fp \<Longrightarrow>
   \<exists>g'. dec_renorm_loop g fp = Some (g', drop k fp) \<and> unat (R g') = unat (R g) * 256 ^ k \<and>
     unat (D g') = unat (D g) * 256 ^ k + val_bytes (take k fp) \<and> total_c g' = total_c g"
proof (induction k arbitrary: g fp)
  case 0
  then have "\<not> R g < PART" by (simp add: nshift_0 less_PART_iff)
  then have "dec_renorm_loop g fp = Some (g, fp)" by (subst dec_renorm_loop.simps) simp
  then show ?case by simp
next
  case (Suc k)
  obtain b fp' where fp: "fp = b # fp'" using Suc.prems(3) by (cases fp) auto
  let ?g = "g\<lparr>R := push_bit 8 (R g),
               D := (push_bit 8 (D g) AND FULL) + word_of_int (uint b)\<rparr>"
  from Suc.prems have small: "unat (R g) < 2 ^ 48" and ns: "nshift (unat (R g) * 256) k"
    by (simp_all add: nshift_Suc)
  have uR: "unat (R ?g) = unat (R g) * 256" using small by (simp add: shiftR_nat)
  have d48: "unat (D g) < 2 ^ 48" using Suc.prems(2) small by simp
  then have "unat (D g) < 2 ^ 56" by simp
  then have "unat (push_bit 8 (D g) AND FULL) = (unat (D g) mod 2 ^ 48) * 256"
    by (rule shiftL_nat)
  then have sh: "unat (push_bit 8 (D g) AND FULL) = unat (D g) * 256" using d48 by simp
  have bl: "unat b < 256" by (rule unat_byte_less)
  have "unat (push_bit 8 (D g) AND FULL) + unat b < 2 ^ 64" unfolding sh using d48 bl by simp
  then have "unat ((push_bit 8 (D g) AND FULL) + word_of_int (uint b)) =
             unat (push_bit 8 (D g) AND FULL) + unat b" by (rule unat_add_byte)
  then have uD: "unat (D ?g) = unat (D g) * 256 + unat b" using sh by simp
  have "R g < PART" using small by (simp add: less_PART_iff)
  then have unf: "dec_renorm_loop g fp = dec_renorm_loop ?g fp'"
    by (subst dec_renorm_loop.simps) (simp add: fp)
  have ns': "nshift (unat (R ?g)) k" using ns uR by simp
  have lt': "unat (D ?g) < unat (R ?g)" unfolding uD uR using Suc.prems(2) bl by simp
  have len': "k \<le> length fp'" using Suc.prems(3) fp by simp
  obtain g' where r: "dec_renorm_loop ?g fp' = Some (g', drop k fp')"
    "unat (R g') = unat (R ?g) * 256 ^ k"
    "unat (D g') = unat (D ?g) * 256 ^ k + val_bytes (take k fp')" "total_c g' = total_c ?g"
    using Suc.IH [OF ns' lt' len'] by blast
  have R': "unat (R g') = unat (R g) * 256 ^ Suc k" using r(2) uR by simp
  have "val_bytes (take (Suc k) fp) = unat b * 256 ^ k + val_bytes (take k fp')"
    using len' by (simp add: fp val_bytes_Cons)
  then have D': "unat (D g') = unat (D g) * 256 ^ Suc k + val_bytes (take (Suc k) fp)"
    unfolding r(3) uD by (simp add: add_mult_distrib)
  have "dec_renorm_loop g fp = Some (g', drop (Suc k) fp)" using unf r(1) fp by simp
  then show ?case using R' D' r(4) by simp
qed

lemma decoder_start_loop_D:
  "unat (D g) < 256 ^ j \<Longrightarrow> j + k \<le> 7 \<Longrightarrow> k \<le> length fp \<Longrightarrow>
   unat (D (fst (decoder_start_loop k g fp))) = unat (D g) * 256 ^ k + val_bytes (take k fp) \<and>
   snd (decoder_start_loop k g fp) = drop k fp"
proof (induction k arbitrary: g fp j)
  case 0
  then show ?case by simp
next
  case (Suc k)
  obtain b fp' where fp: "fp = b # fp'" using Suc.prems(3) by (cases fp) auto
  let ?g = "g\<lparr>D := push_bit 8 (D g) + word_of_int (uint b)\<rparr>"
  have "j \<le> 6" using Suc.prems(2) by simp
  then have "(256::nat) ^ j \<le> 256 ^ 6" by (intro power_increasing) simp_all
  then have d: "unat (D g) < 2 ^ 48" using Suc.prems(1) by simp
  have sh: "unat (push_bit 8 (D g)) = unat (D g) * 256" using d by (simp add: shiftR_nat)
  have bl: "unat b < 256" by (rule unat_byte_less)
  have "unat (push_bit 8 (D g)) + unat b < 2 ^ 64" unfolding sh using d bl by simp
  then have "unat (push_bit 8 (D g) + word_of_int (uint b)) = unat (push_bit 8 (D g)) + unat b"
    by (rule unat_add_byte)
  then have uD: "unat (D ?g) = unat (D g) * 256 + unat b" using sh by simp
  have "unat (D g) + 1 \<le> 256 ^ j" using Suc.prems(1) by simp
  then have "(unat (D g) + 1) * 256 \<le> 256 ^ j * 256" by (rule mult_le_mono1)
  then have lt': "unat (D ?g) < 256 ^ Suc j" unfolding uD using bl by simp
  have jk: "Suc j + k \<le> 7" using Suc.prems(2) by simp
  have len': "k \<le> length fp'" using Suc.prems(3) fp by simp
  have ih: "unat (D (fst (decoder_start_loop k ?g fp'))) =
              unat (D ?g) * 256 ^ k + val_bytes (take k fp') \<and>
            snd (decoder_start_loop k ?g fp') = drop k fp'"
    using Suc.IH [OF lt' jk len'] .
  have unf: "decoder_start_loop (Suc k) g fp = decoder_start_loop k ?g fp'"
    by (simp add: fp)
  have "val_bytes (take (Suc k) fp) = unat b * 256 ^ k + val_bytes (take k fp')"
    using len' by (simp add: fp val_bytes_Cons)
  then have "unat (D ?g) * 256 ^ k + val_bytes (take k fp') =
             unat (D g) * 256 ^ Suc k + val_bytes (take (Suc k) fp)"
    unfolding uD by (simp add: add_mult_distrib)
  then show ?case using ih unf fp by simp
qed

lemma decoder_start_D:
  assumes "7 \<le> length fp"
  shows "unat (D (fst (decoder_start g fp))) = val_bytes (take 7 fp)"
    and "snd (decoder_start g fp) = drop 7 fp"
proof -
  have "unat (D (g\<lparr>D := 0\<rparr>)) < 256 ^ 0" by simp
  moreover have "0 + 7 \<le> (7::nat)" by simp
  ultimately have "unat (D (fst (decoder_start_loop 7 (g\<lparr>D := 0\<rparr>) fp))) =
      unat (D (g\<lparr>D := 0\<rparr>)) * 256 ^ 7 + val_bytes (take 7 fp) \<and>
      snd (decoder_start_loop 7 (g\<lparr>D := 0\<rparr>) fp) = drop 7 fp"
    using assms by (rule decoder_start_loop_D)
  then show "unat (D (fst (decoder_start g fp))) = val_bytes (take 7 fp)"
    and "snd (decoder_start g fp) = drop 7 fp"
    by (simp_all add: decoder_start_def BBYTES_def)
qed

lemma arith_decode_sync:
  assumes ok: "R_ok gd" and tab: "table_ok c (total_c gd)" and sym: "sym_ok c s"
    and len31: "length c \<le> 2 ^ 31"
    and dlo: "step_low c s (unat (total_c gd)) (unat (R gd)) \<le> unat (D gd)"
    and dhi: "unat (D gd) < step_low c s (unat (total_c gd)) (unat (R gd)) +
                step_range c s (unat (total_c gd)) (unat (R gd))"
    and ns: "nshift (step_range c s (unat (total_c gd)) (unat (R gd))) k"
    and len: "k \<le> length fp"
  shows "\<exists>gd'. arith_decode c gd fp = Some (Inr (s, gd', drop k fp)) \<and>
     unat (R gd') = step_range c s (unat (total_c gd)) (unat (R gd)) * 256 ^ k \<and>
     unat (D gd') = (unat (D gd) - step_low c s (unat (total_c gd)) (unat (R gd))) * 256 ^ k +
                    val_bytes (take k fp) \<and>
     total_c gd' = total_c gd"
proof -
  define T where "T = unat (total_c gd)"
  define r where "r = unat (R gd)"
  define d where "d = unat (D gd)"
  define lo where "lo = unat (sym_low c s)"
  define hi where "hi = unat (c ! s)"
  define sc where "sc = r div T"
  have dlo': "step_low c s T r \<le> d" using dlo unfolding T_def r_def d_def .
  have dhi': "d < step_low c s T r + step_range c s T r" using dhi unfolding T_def r_def d_def .
  have ns': "nshift (step_range c s T r) k" using ns unfolding T_def r_def .
  have b: "lo < hi" "hi \<le> T" "T \<le> 2 ^ 41"
    using sym_bounds [OF tab sym] by (simp_all add: lo_def hi_def T_def)
  have r: "2 ^ 48 \<le> r" "r < 2 ^ 56" using ok by (simp_all add: R_ok_nat r_def)
  have Tpos: "0 < T" using b by simp
  have Tr: "T < r" using b r by simp
  have scpos: "0 < sc" unfolding sc_def using Tpos Tr by (simp add: div_greater_zero_iff)
  have pos: "total_c gd \<noteq> 0" using Tpos by (auto simp: T_def)
  have gt: "total_c gd < R gd" using Tr by (simp add: word_less_nat_alt T_def r_def)
  have usc: "unat (R gd div total_c gd) = sc" by (simp add: unat_div sc_def r_def T_def)
  have scw: "0 < R gd div total_c gd" using scpos usc by (simp add: word_less_nat_alt)
  have sl: "step_low c s T r = lo * sc" by (simp add: step_low_def lo_def sc_def)
  have dl: "lo * sc \<le> d" using dlo' unfolding sl .
  have ut0: "unat (D gd div (R gd div total_c gd)) = d div sc"
    by (simp add: unat_div sc_def r_def T_def d_def)
  have "lo * sc div sc \<le> d div sc" using dl by (rule div_le_mono)
  then have lot: "lo \<le> d div sc" using scpos by simp
  have tgt: "unat (dec_target gd) = (if T \<le> d div sc then T - 1 else d div sc)"
  proof (cases "total_c gd \<le> D gd div (R gd div total_c gd)")
    case True
    then have "T \<le> d div sc" by (simp add: word_le_nat_alt ut0 T_def)
    moreover have "unat (total_c gd - 1) = T - 1"
      using Tpos by (simp add: unat_minus_one pos T_def)
    ultimately show ?thesis using True by (simp add: dec_target_def)
  next
    case False
    then have "\<not> T \<le> d div sc" by (simp add: word_le_nat_alt ut0 T_def)
    then show ?thesis using False by (simp add: dec_target_def ut0)
  qed
  have "lo \<le> T - 1" using b(1,2) by linarith
  then have tl: "lo \<le> unat (dec_target gd)" using lot unfolding tgt by simp
  have th: "unat (dec_target gd) < hi"
  proof (cases "hi < T")
    case True
    then have "step_range c s T r = (hi - lo) * sc"
      by (simp add: step_range_def hi_def lo_def sc_def)
    then have "d < lo * sc + (hi - lo) * sc" using dhi' unfolding sl by simp
    also have "\<dots> = hi * sc" using b(1) by (simp add: add_mult_distrib [symmetric])
    finally have "d div sc < hi" by (rule less_mult_imp_div_less)
    then show ?thesis unfolding tgt using True by simp
  next
    case False
    then have "hi = T" using b by simp
    then show ?thesis unfolding tgt using Tpos by simp
  qed
  have w1: "sym_low c s \<le> dec_target gd" using tl by (simp add: word_le_nat_alt lo_def)
  have w2: "dec_target gd < c ! s" using th by (simp add: word_less_nat_alt hi_def)
  have v: "s = nat (dec_search_ideal c (dec_target gd) 0 (int (length c) - 1))"
    using dec_search_symbol(5) [OF tab dec_target_less [OF pos] sym w1 w2] .
  let ?g2 = "dec_update c gd s"
  have R2: "unat (R ?g2) = step_range c s T r" and T2: "total_c ?g2 = total_c gd"
    using dec_update_R [OF tab sym gt] by (simp_all add: T_def r_def)
  have "unat (sym_low c s) * unat (R gd div total_c gd) < 2 ^ LENGTH(64)"
    using dl unsigned_less [of "D gd", where 'a = nat] by (simp add: usc lo_def [symmetric] d_def)
  then have um: "unat (sym_low c s * (R gd div total_c gd)) = lo * sc"
    by (simp only: unat_mult_lem [THEN iffD1] usc lo_def)
  then have "sym_low c s * (R gd div total_c gd) \<le> D gd"
    using dl by (simp add: word_le_nat_alt d_def)
  then have "unat (D gd - sym_low c s * (R gd div total_c gd)) = d - lo * sc"
    by (simp add: unat_sub um d_def)
  moreover have "D ?g2 = D gd - sym_low c s * (R gd div total_c gd)"
    by (simp add: dec_update_def)
  ultimately have D2: "unat (D ?g2) = d - lo * sc" by simp
  have lt2: "unat (D ?g2) < unat (R ?g2)"
    unfolding D2 R2 using dhi' dl unfolding sl by linarith
  then have le2: "D ?g2 \<le> R ?g2" by (simp add: word_le_nat_alt)
  have ns2: "nshift (unat (R ?g2)) k" using ns' unfolding R2 .
  obtain g3 where l: "dec_renorm_loop ?g2 fp = Some (g3, drop k fp)"
    "unat (R g3) = unat (R ?g2) * 256 ^ k"
    "unat (D g3) = unat (D ?g2) * 256 ^ k + val_bytes (take k fp)" "total_c g3 = total_c ?g2"
    using dec_renorm_loop_D [OF ns2 lt2 len] by blast
  have "val_bytes (take k fp) < 256 ^ length (take k fp)" by (rule val_bytes_lt)
  then have vl: "val_bytes (take k fp) < 256 ^ k" using len by simp
  have "unat (D ?g2) + 1 \<le> unat (R ?g2)" using lt2 by simp
  then have "(unat (D ?g2) + 1) * 256 ^ k \<le> unat (R ?g2) * 256 ^ k" by (rule mult_le_mono1)
  then have "unat (D g3) < unat (R g3)" unfolding l(2,3) using vl by (simp add: add_mult_distrib)
  then have le3: "D g3 \<le> R g3" by (simp add: word_le_nat_alt)
  have "arith_decode c gd fp = Some (Inr (s, g3, drop k fp))"
    unfolding arith_decode_unfold [OF tab pos scw len31] v [symmetric] using le2 le3 l(1) by simp
  moreover have "unat (R g3) = step_range c s T r * 256 ^ k" using l(2) R2 by simp
  moreover have "unat (D g3) = (d - step_low c s T r) * 256 ^ k + val_bytes (take k fp)"
    using l(3) D2 sl by simp
  moreover have "total_c g3 = total_c gd" using l(4) T2 by simp
  ultimately show ?thesis unfolding T_def r_def d_def by blast
qed

lemma enc_inv_init: "enc_inv (coder_init t) []"
proof (rule enc_invI)
  show "0 < unat (R (coder_init t))" by (simp add: coder_init_def unat_FULL)
  show "unat (R (coder_init t)) < 2 ^ 56" by (simp add: coder_init_def unat_FULL)
  show "unat (L (coder_init t)) < 2 ^ 56" by (simp add: coder_init_def)
  show "low_bound (coder_init t) [] + unat (R (coder_init t))
          \<le> 256 ^ length ([] @ pending (coder_init t)) * 2 ^ 56"
    by (simp add: coder_init_def low_bound_def pending_def unat_FULL)
  show "first (coder_init t) \<Longrightarrow> [] = ([]::u8 list)" by simp
  show "\<not> first (coder_init t) \<Longrightarrow> last_non_ff_byte (coder_init t) = 255 \<Longrightarrow>
          unat (L (coder_init t)) + unat (R (coder_init t)) \<le> 2 ^ 56"
    by (simp add: coder_init_def)
qed

lemma low_bound_init: "low_bound (coder_init t) [] = 0" "pending (coder_init t) = []"
  by (simp_all add: coder_init_def low_bound_def pending_def)

lemma decode_sync:
  assumes E: "val_bytes E = low_bound gf fpf" "length E = length (fpf @ pending gf) + 7"
    and len31: "length c \<le> 2 ^ 31"
  shows "enc_inv g fp \<Longrightarrow> PART \<le> R g \<Longrightarrow> table_ok c (total_c g) \<Longrightarrow> \<forall>s\<in>set xs. sym_ok c s \<Longrightarrow>
   \<not> encode_wraps xs c g fp \<Longrightarrow>
   encode_all xs c g fp = Some (Inr (gf, fpf)) \<Longrightarrow>
   R gd = R g \<Longrightarrow> total_c gd = total_c g \<Longrightarrow>
   low_bound g fp \<le> val_bytes (take (length (fp @ pending g) + 7) E) \<Longrightarrow>
   unat (D gd) = val_bytes (take (length (fp @ pending g) + 7) E) - low_bound g fp \<Longrightarrow>
   \<exists>gd'. decode_n (length xs) c gd (drop (length (fp @ pending g) + 7) E) =
            Some (Inr (xs, gd', []))"
proof (induction xs arbitrary: g fp gd)
  case Nil
  from Nil.prems(6) have "gf = g" "fpf = fp" by simp_all
  then have "drop (length (fp @ pending g) + 7) E = []" using E(2) by simp
  then show ?case by simp
next
  case (Cons s xs)
  define m where "m = length (fp @ pending g)"
  define A where "A = low_bound g fp"
  define r where "r = unat (R g)"
  define T where "T = unat (total_c g)"
  define sl where "sl = step_low c s T r"
  define sr where "sr = step_range c s T r"
  define V where "V = val_bytes (take (m + 7) E)"
  define d where "d = unat (D gd)"
  have AV: "A \<le> V" using Cons.prems(9) unfolding A_def V_def m_def .
  have dV: "d = V - A" using Cons.prems(10) unfolding A_def V_def m_def d_def .
  have sym: "sym_ok c s" using Cons.prems(4) by simp
  note ew = encode_wraps_Cons [OF Cons.prems(1,2,3) sym Cons.prems(5)]
  obtain g1 fp1 k1 where a: "arith_encode s c g fp = Some (Inr (g1, fp1))" "enc_inv g1 fp1"
    "PART \<le> R g1" "k1 \<le> 6" "nshift sr k1"
    "low_bound g1 fp1 = (A + sl) * 256 ^ k1"
    "length (fp1 @ pending g1) = m + k1"
    "unat (R g1) = sr * 256 ^ k1" "total_c g1 = total_c g"
    using arith_encode_inv [OF Cons.prems(1,2,3) sym ew(1)]
    unfolding A_def sl_def sr_def T_def r_def m_def by blast
  define A1 where "A1 = low_bound g1 fp1"
  define r1 where "r1 = unat (R g1)"
  have e1: "encode_all xs c g1 fp1 = Some (Inr (gf, fpf))" using Cons.prems(6) a(1) by simp
  have tab1: "table_ok c (total_c g1)" using Cons.prems(3) a(9) by simp
  have rest: "\<forall>s\<in>set xs. sym_ok c s" using Cons.prems(4) by simp
  have len1: "\<not> encode_wraps xs c g1 fp1" using a(1) by (rule ew(2))
  obtain g' fp' k2 where b0: "encode_all xs c g1 fp1 = Some (Inr (g', fp'))" "enc_inv g' fp'"
    "length (fp' @ pending g') = length (fp1 @ pending g1) + k2"
    "low_bound g1 fp1 * 256 ^ k2 \<le> low_bound g' fp'"
    "low_bound g' fp' + unat (R g') \<le> (low_bound g1 fp1 + unat (R g1)) * 256 ^ k2"
    using encode_all_inv [OF a(2,3) tab1 rest len1] by blast
  have same: "g' = gf" "fp' = fpf" using b0(1) e1 by simp_all
  define Af where "Af = low_bound gf fpf"
  have b: "enc_inv gf fpf" "length (fpf @ pending gf) = m + k1 + k2"
    "A1 * 256 ^ k2 \<le> Af" "Af + unat (R gf) \<le> (A1 + r1) * 256 ^ k2"
    using b0(2-5) a(7) unfolding same A1_def r1_def Af_def by simp_all
  have "0 < unat (R gf)" using enc_invD(1) [OF b(1)] .
  then have Afl: "Af < (A1 + r1) * 256 ^ k2" using b(4) by linarith
  have lenE: "length E = m + k1 + k2 + 7" using E(2) b(2) by simp
  define V1 where "V1 = val_bytes (take (m + k1 + 7) E)"
  have "m + k1 + 7 \<le> length E" using lenE by simp
  then have "V1 = val_bytes E div 256 ^ (length E - (m + k1 + 7))"
    unfolding V1_def by (rule val_bytes_take_div)
  moreover have "length E - (m + k1 + 7) = k2" using lenE by simp
  ultimately have V1: "V1 = Af div 256 ^ k2" using E(1) by (simp add: Af_def)
  have "A1 * 256 ^ k2 div 256 ^ k2 \<le> Af div 256 ^ k2" using b(3) by (rule div_le_mono)
  then have A1V1: "A1 \<le> V1" unfolding V1 by simp
  have V1l: "V1 < A1 + r1" unfolding V1 using Afl by (rule less_mult_imp_div_less)
  have "take (m + 7) E = take (m + 7) (take (m + k1 + 7) E)" by (simp add: min_def)
  moreover have "val_bytes (take (m + 7) (take (m + k1 + 7) E)) =
      val_bytes (take (m + k1 + 7) E) div 256 ^ (length (take (m + k1 + 7) E) - (m + 7))"
    by (rule val_bytes_take_div) (simp add: lenE)
  moreover have "length (take (m + k1 + 7) E) - (m + 7) = k1" by (simp add: lenE)
  ultimately have Vd: "V = V1 div 256 ^ k1" unfolding V_def V1_def by simp
  have A1e: "A1 = (A + sl) * 256 ^ k1" using a(6) by (simp add: A1_def)
  have r1e: "r1 = sr * 256 ^ k1" using a(8) by (simp add: r1_def)
  have "(A + sl) * 256 ^ k1 div 256 ^ k1 \<le> V1 div 256 ^ k1"
    using A1V1 unfolding A1e by (rule div_le_mono)
  then have lo: "A + sl \<le> V" unfolding Vd by simp
  have "A1 + r1 = (A + sl + sr) * 256 ^ k1" unfolding A1e r1e by (simp add: add_mult_distrib)
  then have "V1 < (A + sl + sr) * 256 ^ k1" using V1l by simp
  then have hi: "V < A + sl + sr" unfolding Vd by (rule less_mult_imp_div_less)
  have dlo: "sl \<le> d" using lo AV dV by linarith
  have dhi: "d < sl + sr" using hi AV dV by linarith
  have "2 ^ 48 \<le> unat (R g)" using Cons.prems(2) by (simp add: PART_le_iff)
  moreover have "unat (R g) < 2 ^ 56" using enc_invD(2) [OF Cons.prems(1)] .
  ultimately have ok: "R_ok gd" using Cons.prems(7) by (simp add: R_ok_nat)
  have tabd: "table_ok c (total_c gd)" using Cons.prems(3,8) by simp
  have Td: "unat (total_c gd) = T" using Cons.prems(8) by (simp add: T_def)
  have rd: "unat (R gd) = r" using Cons.prems(7) by (simp add: r_def)
  define rs where "rs = drop (m + 7) E"
  have lrs: "length rs = k1 + k2" using lenE by (simp add: rs_def)
  then have lenk: "k1 \<le> length rs" by simp
  have dlo': "step_low c s (unat (total_c gd)) (unat (R gd)) \<le> unat (D gd)"
    unfolding Td rd using dlo by (simp add: sl_def d_def)
  have dhi': "unat (D gd) < step_low c s (unat (total_c gd)) (unat (R gd)) +
                step_range c s (unat (total_c gd)) (unat (R gd))"
    unfolding Td rd using dhi by (simp add: sl_def sr_def d_def)
  have ns': "nshift (step_range c s (unat (total_c gd)) (unat (R gd))) k1"
    unfolding Td rd using a(5) by (simp add: sr_def)
  obtain gd1 where c: "arith_decode c gd rs = Some (Inr (s, gd1, drop k1 rs))"
    "unat (R gd1) = sr * 256 ^ k1"
    "unat (D gd1) = (d - sl) * 256 ^ k1 + val_bytes (take k1 rs)"
    "total_c gd1 = total_c gd"
    using arith_decode_sync [OF ok tabd sym len31 dlo' dhi' ns' lenk]
    unfolding Td rd sl_def [symmetric] sr_def [symmetric] d_def [symmetric] by blast
  have "unat (R gd1) = unat (R g1)" using c(2) a(8) by simp
  then have Rg: "R gd1 = R g1" by (simp add: word_unat_eq_iff)
  have tot: "total_c gd1 = total_c g1" using c(4) Cons.prems(8) a(9) by simp
  define w where "w = val_bytes (take k1 rs)"
  have "take (m + 7 + k1) E = take (m + 7) E @ take k1 (drop (m + 7) E)" by (rule take_add)
  then have "val_bytes (take (m + 7 + k1) E) =
             val_bytes (take (m + 7) E) * 256 ^ length (take k1 rs) + val_bytes (take k1 rs)"
    by (simp only: val_bytes_append rs_def)
  moreover have "length (take k1 rs) = k1" using lenk by simp
  moreover have "m + 7 + k1 = m + k1 + 7" by simp
  ultimately have V1s: "V1 = V * 256 ^ k1 + w" unfolding V1_def V_def w_def by simp
  have "(A + sl) * 256 ^ k1 \<le> V * 256 ^ k1" using lo by (rule mult_le_mono1)
  then have le: "A1 \<le> V * 256 ^ k1" unfolding A1e .
  have "d - sl = V - (A + sl)" using dV by simp
  then have "(d - sl) * 256 ^ k1 = V * 256 ^ k1 - A1"
    unfolding A1e by (simp only: diff_mult_distrib)
  then have "unat (D gd1) = V * 256 ^ k1 - A1 + w" using c(3) by (simp add: w_def)
  then have D1: "unat (D gd1) = V1 - A1" unfolding V1s using le by linarith
  have m1: "length (fp1 @ pending g1) + 7 = m + k1 + 7" using a(7) by simp
  have p9: "low_bound g1 fp1 \<le> val_bytes (take (length (fp1 @ pending g1) + 7) E)"
    unfolding m1 using A1V1 by (simp add: A1_def V1_def)
  have p10: "unat (D gd1) = val_bytes (take (length (fp1 @ pending g1) + 7) E) - low_bound g1 fp1"
    unfolding m1 using D1 by (simp add: A1_def V1_def)
  obtain gd' where ih: "decode_n (length xs) c gd1 (drop (length (fp1 @ pending g1) + 7) E) =
      Some (Inr (xs, gd', []))"
    using Cons.IH [OF a(2,3) tab1 rest len1 e1 Rg tot p9 p10] by blast
  have "k1 + (m + 7) = m + k1 + 7" by simp
  then have "drop k1 rs = drop (m + k1 + 7) E" by (simp only: rs_def drop_drop)
  then have "decode_n (length xs) c gd1 (drop k1 rs) = Some (Inr (xs, gd', []))"
    using ih unfolding m1 by simp
  then have "decode_n (length (s # xs)) c gd rs = Some (Inr (s # xs, gd', []))"
    using c(1) by simp
  then show ?case unfolding rs_def m_def by blast
qed

lemma round_trip_table:
  assumes tab: "table_ok c (last c)" and syms: "\<forall>s\<in>set xs. sym_ok c s"
    and len0: "\<not> encode_wraps xs c (coder_init (last c)) []" and len31: "length c \<le> 2 ^ 31"
  shows "\<exists>E. encode_stream c xs = Some (Inr E) \<and> decode_stream c (length xs) E = Some (Inr xs)"
proof -
  let ?g = "coder_init (last c)"
  have inv: "enc_inv ?g []" by (rule enc_inv_init)
  have big: "PART \<le> R ?g" using lr_inv_init(2) [of "last c"] by (simp add: R_ok_def)
  have tab0: "table_ok c (total_c ?g)" using tab by (simp add: coder_init_def)
  obtain gf fpf where e: "encode_all xs c ?g [] = Some (Inr (gf, fpf))" "enc_inv gf fpf"
    using encode_all_inv [OF inv big tab0 syms len0] by blast
  define E where "E = snd (encoder_close gf fpf)"
  have enc: "encode_stream c xs = Some (Inr E)" by (simp add: encode_stream_def e(1) E_def)
  have Lf: "unat (L gf) < 2 ^ 56" using enc_invD(3) [OF e(2)] .
  have E1: "val_bytes E = low_bound gf fpf" unfolding E_def using Lf by (rule encoder_close_stream(1))
  have E2: "length E = length (fpf @ pending gf) + 7"
    unfolding E_def using Lf by (rule encoder_close_stream(2))
  have l7: "7 \<le> length E" using E2 by simp
  define gd where "gd = fst (decoder_start ?g E)"
  have ds: "decoder_start ?g E = (gd, drop 7 E)"
    using decoder_start_D(2) [OF l7, of ?g] by (simp add: gd_def prod_eq_iff)
  have Dg: "unat (D gd) = val_bytes (take 7 E)" unfolding gd_def using l7 by (rule decoder_start_D(1))
  have Rg: "R gd = R ?g" unfolding gd_def by (rule decoder_start_plain(1))
  have Tg: "total_c gd = total_c ?g" unfolding gd_def by (rule decoder_start_plain(2))
  have p9: "low_bound ?g [] \<le> val_bytes (take (length ([] @ pending ?g) + 7) E)"
    by (simp add: low_bound_init)
  have p10: "unat (D gd) = val_bytes (take (length ([] @ pending ?g) + 7) E) - low_bound ?g []"
    using Dg by (simp add: low_bound_init)
  obtain gd' where "decode_n (length xs) c gd (drop (length ([] @ pending ?g) + 7) E) =
      Some (Inr (xs, gd', []))"
    using decode_sync [OF E1 E2 len31 inv big tab0 syms len0 e(1) Rg Tg p9 p10] by blast
  then have "decode_n (length xs) c gd (drop 7 E) = Some (Inr (xs, gd', []))"
    by (simp add: low_bound_init)
  then have "decode_stream c (length xs) E = Some (Inr xs)"
    by (simp add: decode_stream_def ds)
  then show ?thesis using enc by blast
qed

lemma ff_prefix:
  "encode_all [0, 1, 1, 1, 1, 1, 1, 1] [255, 256] (coder_init 256) [] =
     Some (Inr (ff_state 0, [254, 255, 255, 255, 255, 255]))"
  by code_simp

lemma ff_close:
  "snd (encoder_close (ff_state 0) [254, 255, 255, 255, 255, 255]) =
     [254, 255, 255, 255, 255, 255, 0, 1, 0, 0, 0, 0, 0, 0]"
  by code_simp

lemma ff_decode:
  "decode_stream [255, 256] 9 [254, 255, 255, 255, 255, 255, 0, 1, 0, 0, 0, 0, 0, 0] =
     Some (Inr [0, 1, 1, 1, 1, 1, 1, 1, 0])"
  by code_simp

lemma ff_cycle_step:
  "arith_encode 1 [255, 256] (ff_state n) fp = Some (Inr (ff_state (n + 1), fp))"
proof -
  let ?g1 = "(ff_state n)\<lparr>L := 71777218572845056, R := 280375465082880\<rparr>"
  have cs: "coding_step 1 [255, 256] (ff_state n) = ?g1"
    by (simp add: coding_step_def ff_state_def)
  have "\<not> FULL < L ?g1" by (simp add: FULL_less_iff)
  then have cr: "carry_step ?g1 fp = (?g1, fp)" by (simp add: carry_step_def)
  have "(ucast (drop_bit (BBITS - 8) (L ?g1)) :: u8) = FULLBYTE"
    by (simp add: BBITS_def BBYTES_def FULLBYTE_def)
  then have rb: "renorm_body ?g1 fp = (ff_state (n + 1), fp)"
    by (simp add: renorm_body_def ff_state_def FULL_def BBITS_def BBYTES_def)
  have "R ?g1 < PART" by (simp add: less_PART_iff)
  moreover have "\<not> R (ff_state (n + 1)) < PART" by (simp add: less_PART_iff ff_state_def)
  ultimately have rl: "renorm_loop ?g1 fp = Some (ff_state (n + 1), fp)"
    by (subst renorm_loop.simps, simp only: rb fst_conv snd_conv if_True,
        subst renorm_loop.simps, simp)
  have "total_c (ff_state n) < R (ff_state n)" by (simp add: ff_state_def)
  moreover have "total_c (ff_state n) \<noteq> 0" by (simp add: ff_state_def)
  ultimately show ?thesis
    by (simp add: arith_encode_def cs cr rl del: One_nat_def)
qed

lemma encode_all_append:
  "encode_all (xs @ ys) c g fp =
     (case encode_all xs c g fp of
        None \<Rightarrow> None
      | Some (Inl e) \<Rightarrow> Some (Inl e)
      | Some (Inr (g', fp')) \<Rightarrow> encode_all ys c g' fp')"
  by (induction xs arbitrary: g fp) (auto split: option.splits sum.splits)

lemma ff_cycle:
  "encode_all (replicate N 1) [255, 256] (ff_state n) fp = Some (Inr (ff_state (n + of_nat N), fp))"
proof (induction N arbitrary: n)
  case 0
  then show ?case by simp
next
  case (Suc N)
  have "encode_all (replicate (Suc N) 1) [255, 256] (ff_state n) fp =
        encode_all (replicate N 1) [255, 256] (ff_state (n + 1)) fp"
    by (simp add: ff_cycle_step del: One_nat_def)
  also have "\<dots> = Some (Inr (ff_state (n + 1 + of_nat N), fp))" by (rule Suc.IH)
  also have "n + 1 + of_nat N = n + of_nat (Suc N)" by simp
  finally show ?case .
qed

lemma decode_n_prefix:
  "decode_n (n + m) c g fp = Some (Inr (vs, g', fp')) \<Longrightarrow>
   \<exists>g1 fp1. decode_n n c g fp = Some (Inr (take n vs, g1, fp1))"
proof (induction n arbitrary: g fp vs)
  case 0
  then show ?case by simp
next
  case (Suc n)
  from Suc.prems obtain v g2 fp2 vs' where
    a: "arith_decode c g fp = Some (Inr (v, g2, fp2))"
    and b: "decode_n (n + m) c g2 fp2 = Some (Inr (vs', g', fp'))" and vs: "vs = v # vs'"
    by (auto split: option.splits sum.splits)
  obtain g1 fp1 where "decode_n n c g2 fp2 = Some (Inr (take n vs', g1, fp1))"
    using Suc.IH [OF b] by blast
  then have "decode_n (Suc n) c g fp = Some (Inr (take (Suc n) vs, g1, fp1))"
    using a vs by simp
  then show ?case by blast
qed

lemma decode_stream_prefix:
  assumes "decode_stream c (n + m) E = Some (Inr vs)"
  shows "decode_stream c n E = Some (Inr (take n vs))"
proof -
  obtain g fp where ds: "decoder_start (coder_init (last c)) E = (g, fp)" by force
  from assms obtain g' fp' where "decode_n (n + m) c g fp = Some (Inr (vs, g', fp'))"
    by (auto simp: decode_stream_def ds split: option.splits sum.splits)
  then obtain g1 fp1 where "decode_n n c g fp = Some (Inr (take n vs, g1, fp1))"
    using decode_n_prefix by blast
  then show ?thesis by (simp add: decode_stream_def ds)
qed

lemma ff_overflow:
  assumes z: "of_nat N = (0::u32)" and pos: "0 < N"
  shows "encode_stream [255, 256] ([0, 1, 1, 1, 1, 1, 1, 1] @ replicate N 1) =
           Some (Inr [254, 255, 255, 255, 255, 255, 0, 1, 0, 0, 0, 0, 0, 0])"
    and "decode_stream [255, 256] (length ([0, 1, 1, 1, 1, 1, 1, 1] @ replicate N (1::nat)))
           [254, 255, 255, 255, 255, 255, 0, 1, 0, 0, 0, 0, 0, 0] \<noteq>
         Some (Inr ([0, 1, 1, 1, 1, 1, 1, 1] @ replicate N 1))"
proof -
  have "encode_all ([0, 1, 1, 1, 1, 1, 1, 1] @ replicate N 1) [255, 256] (coder_init 256) [] =
        encode_all (replicate N 1) [255, 256] (ff_state 0) [254, 255, 255, 255, 255, 255]"
    by (simp only: encode_all_append ff_prefix option.case sum.case prod.case)
  also have "\<dots> = Some (Inr (ff_state (0 + of_nat N), [254, 255, 255, 255, 255, 255]))"
    by (rule ff_cycle)
  also have "0 + of_nat N = (0::u32)" using z by simp
  finally have e: "encode_all ([0, 1, 1, 1, 1, 1, 1, 1] @ replicate N 1) [255, 256]
      (coder_init 256) [] = Some (Inr (ff_state 0, [254, 255, 255, 255, 255, 255]))" .
  have l: "last [255, 256 :: u64] = 256" by simp
  have "encode_all ([0, 1, 1, 1, 1, 1, 1, 1] @ replicate N 1) [255, 256]
      (coder_init (last [255, 256])) [] = Some (Inr (ff_state 0, [254, 255, 255, 255, 255, 255]))"
    unfolding l by (rule e)
  then show "encode_stream [255, 256] ([0, 1, 1, 1, 1, 1, 1, 1] @ replicate N 1) =
           Some (Inr [254, 255, 255, 255, 255, 255, 0, 1, 0, 0, 0, 0, 0, 0])"
    unfolding encode_stream_def by (simp only: option.case sum.case prod.case ff_close)
  show "decode_stream [255, 256] (length ([0, 1, 1, 1, 1, 1, 1, 1] @ replicate N (1::nat)))
           [254, 255, 255, 255, 255, 255, 0, 1, 0, 0, 0, 0, 0, 0] \<noteq>
         Some (Inr ([0, 1, 1, 1, 1, 1, 1, 1] @ replicate N 1))"
  proof
    assume a: "decode_stream [255, 256] (length ([0, 1, 1, 1, 1, 1, 1, 1] @ replicate N (1::nat)))
           [254, 255, 255, 255, 255, 255, 0, 1, 0, 0, 0, 0, 0, 0] =
         Some (Inr ([0, 1, 1, 1, 1, 1, 1, 1] @ replicate N 1))"
    have "length ([0, 1, 1, 1, 1, 1, 1, 1] @ replicate N (1::nat)) = 9 + (N - 1)"
      using pos by simp
    then have "decode_stream [255, 256] (9 + (N - 1))
           [254, 255, 255, 255, 255, 255, 0, 1, 0, 0, 0, 0, 0, 0] =
         Some (Inr ([0, 1, 1, 1, 1, 1, 1, 1] @ replicate N 1))"
      using a by (simp only:)
    then have "decode_stream [255, 256] 9 [254, 255, 255, 255, 255, 255, 0, 1, 0, 0, 0, 0, 0, 0] =
         Some (Inr (take 9 ([0, 1, 1, 1, 1, 1, 1, 1] @ replicate N 1)))"
      by (rule decode_stream_prefix)
    moreover have "take 9 ([0, 1, 1, 1, 1, 1, 1, 1] @ replicate N (1::nat)) =
        [0, 1, 1, 1, 1, 1, 1, 1, 1]" using pos by (simp add: min_def)
    ultimately show False unfolding ff_decode by simp
  qed
qed

lemma last_cumfreqs: "fs \<noteq> [] \<Longrightarrow> last (cumfreqs acc fs) = acc + sum_list fs"
proof (induction fs arbitrary: acc)
  case Nil
  then show ?case by simp
next
  case (Cons x fs)
  show ?case
  proof (cases "fs = []")
    case True
    then show ?thesis by simp
  next
    case False
    then have "cumfreqs (acc + x) fs \<noteq> []" by (cases fs) simp_all
    then show ?thesis using Cons.IH [OF False, of "acc + x"] by (simp add: add.assoc)
  qed
qed

lemma arith_encode_cong:
  assumes "s < length c" and "s < length c'" and "c ! s = c' ! s"
    and "c ! (s - 1) = c' ! (s - 1)"
  shows "arith_encode s c g fp = arith_encode s c' g fp"
  using assms by (simp add: arith_encode_def coding_step_def)

lemma big_table_encode:
  fixes c :: "u64 list"
  assumes l: "length c = 2 ^ 31 + 1" and c0: "c ! 0 = 1" and c1: "c ! 1 = 2"
    and la: "last c = 2147483649"
  shows "encode_stream c [1] = Some (Inr [0, 0, 0, 1, 255, 255, 255, 0, 0, 0])"
proof -
  have "arith_encode 1 c (coder_init 2147483649) [] =
        arith_encode 1 [1, 2] (coder_init 2147483649) []"
    by (rule arith_encode_cong) (simp_all add: l c0 c1 [unfolded One_nat_def])
  also have "\<dots> = Some (Inr (\<lparr>total_c = 2147483649, L = 562949936644096, R = 562949936644096,
      last_non_ff_byte = 0, num_ff_bytes = 0, first = False, bytes_out = 47, D = 0\<rparr>, [0, 0]))"
    by code_simp
  finally have e: "arith_encode 1 c (coder_init 2147483649) [] =
      Some (Inr (\<lparr>total_c = 2147483649, L = 562949936644096, R = 562949936644096,
      last_non_ff_byte = 0, num_ff_bytes = 0, first = False, bytes_out = 47, D = 0\<rparr>, [0, 0]))" .
  have cl: "snd (encoder_close \<lparr>total_c = 2147483649, L = 562949936644096, R = 562949936644096,
      last_non_ff_byte = 0, num_ff_bytes = 0, first = False, bytes_out = 47, D = 0\<rparr> [0, 0]) =
      [0, 0, 0, 1, 255, 255, 255, 0, 0, 0]"
    by code_simp
  show ?thesis
    unfolding encode_stream_def la by (simp add: e cl del: One_nat_def)
qed

lemma big_table_decode:
  fixes c :: "u64 list"
  assumes l: "length c = 2 ^ 31 + 1" and c0: "c ! 0 = 1" and la: "last c = 2147483649"
  shows "decode_stream c 1 [0, 0, 0, 1, 255, 255, 255, 0, 0, 0] = Some (Inl (AssertFail 249))"
proof -
  let ?g = "\<lparr>total_c = 2147483649, L = 0, R = 72057594037927935,
      last_non_ff_byte = 0, num_ff_bytes = 0, first = True, bytes_out = 45, D = 33554431\<rparr>"
  have ds: "decoder_start (coder_init 2147483649) [0, 0, 0, 1, 255, 255, 255, 0, 0, 0] =
      (?g, [0, 0, 0])"
    by code_simp
  have t: "dec_target ?g = 1" by code_simp
  have pos: "total_c ?g \<noteq> 0" by simp
  have sc: "0 < R ?g div total_c ?g" by code_simp
  have "int (length c) - 1 = 2147483648" using l by simp
  then have h: "to_int (int (length c) - 1) = - 2147483648" by (simp add: to_int_def)
  have v: "nat (dec_search_ideal c 1 0 (to_int (int (length c) - 1))) = 0"
    unfolding h by (subst dec_search_ideal.simps) simp
  have "arith_decode c ?g [0, 0, 0] = Some (Inl (AssertFail 249))"
    unfolding arith_decode_cases [OF pos sc] t v using l c0 by simp
  then show ?thesis
    unfolding decode_stream_def la ds by simp
qed

lemma big_table_facts:
  "length (cumfreqs 0 (replicate (2 ^ 31 + 1) 1)) = 2 ^ 31 + 1"
  "cumfreqs 0 (replicate (2 ^ 31 + 1) 1) ! 0 = 1"
  "cumfreqs 0 (replicate (2 ^ 31 + 1) 1) ! 1 = 2"
  "last (cumfreqs 0 (replicate (2 ^ 31 + 1) 1)) = 2147483649"
proof -
  have n: "(2 ^ 31 + 1 :: nat) = Suc (Suc (2 ^ 31 - 1))" by simp
  have r: "replicate (2 ^ 31 + 1) (1::u64) = 1 # 1 # replicate (2 ^ 31 - 1) 1"
    by (simp only: n replicate_Suc)
  show "length (cumfreqs 0 (replicate (2 ^ 31 + 1) 1)) = 2 ^ 31 + 1" by simp
  show "cumfreqs 0 (replicate (2 ^ 31 + 1) 1) ! 0 = 1" unfolding r by simp
  show "cumfreqs 0 (replicate (2 ^ 31 + 1) 1) ! 1 = 2" unfolding r by simp
  have "replicate (2 ^ 31 + 1) (1::u64) \<noteq> []" unfolding r by simp
  then have "last (cumfreqs 0 (replicate (2 ^ 31 + 1) 1)) = 0 + sum_list (replicate (2 ^ 31 + 1) (1::u64))"
    by (rule last_cumfreqs)
  also have "\<dots> = 2147483649" by (simp add: sum_list_replicate)
  finally show "last (cumfreqs 0 (replicate (2 ^ 31 + 1) 1)) = 2147483649" .
qed

lemma big_table_run:
  "encode_stream (cumfreqs 0 (replicate (2 ^ 31 + 1) 1)) [1] =
     Some (Inr [0, 0, 0, 1, 255, 255, 255, 0, 0, 0])"
  "decode_stream (cumfreqs 0 (replicate (2 ^ 31 + 1) 1)) 1 [0, 0, 0, 1, 255, 255, 255, 0, 0, 0] =
     Some (Inl (AssertFail 249))"
  using big_table_encode [OF big_table_facts] big_table_decode [OF big_table_facts(1,2,4)]
  by blast+

section \<open>Properties of the coder\<close>

subsection \<open>The round trip\<close>

text \<open>
  Claim C1 says that for every frequency vector with a total of at most \<open>MINR\<close> and every
  finite sequence of symbols of non-zero frequency, the decoder returns the sequence the
  encoder was given. Two types of the code exclude inputs.

  The encoder counts the ff bytes it holds back in \<^verbatim>\<open>num_ff_bytes\<close>, a \<^verbatim>\<open>uint32_t\<close>. With
  the frequencies 255 and 1, the symbols 0, 1, 1, 1, 1, 1, 1, 1 leave \<open>L = 2^48\<close> and
  \<open>R = 255 * 2^48\<close>; from there every further symbol 1 shifts one ff byte out of \<open>L\<close>,
  returns to the same \<open>L\<close> and \<open>R\<close>, writes nothing and adds one to \<^verbatim>\<open>num_ff_bytes\<close>. After
  \<open>2^32\<close> such symbols the counter is 0 again, so the file is the 14 bytes the encoder
  writes for the first eight symbols alone, and the decoder reads the ninth symbol from it
  as 0, not 1.

  The decoder searches the table between two \<^verbatim>\<open>int\<close>s, and \<^verbatim>\<open>hi = n-1\<close> assigns a \<^verbatim>\<open>size_t\<close>
  to one of them. With \<open>2^31 + 1\<close> bins of frequency 1, \<open>hi\<close> is \<open>-2^31\<close>, the loop is
  not entered and \<open>v = 0\<close>: the file the encoder writes for the symbol 1 stops the decoder
  at \<^verbatim>\<open>assert(target<c[v])\<close>, line 249.
\<close>

theorem round_trip_counterexample:
  "encode_stream (cumfreqs 0 [255, 1]) ([0, 1, 1, 1, 1, 1, 1, 1] @ replicate (2 ^ 32) 1) =
     Some (Inr [254, 255, 255, 255, 255, 255, 0, 1, 0, 0, 0, 0, 0, 0]) \<and>
   decode_stream (cumfreqs 0 [255, 1])
       (length ([0, 1, 1, 1, 1, 1, 1, 1] @ replicate (2 ^ 32) (1::nat)))
       [254, 255, 255, 255, 255, 255, 0, 1, 0, 0, 0, 0, 0, 0] \<noteq>
     Some (Inr ([0, 1, 1, 1, 1, 1, 1, 1] @ replicate (2 ^ 32) 1)) \<and>
   encode_stream (cumfreqs 0 (replicate (2 ^ 31 + 1) 1)) [1] =
     Some (Inr [0, 0, 0, 1, 255, 255, 255, 0, 0, 0]) \<and>
   decode_stream (cumfreqs 0 (replicate (2 ^ 31 + 1) 1)) 1
       [0, 0, 0, 1, 255, 255, 255, 0, 0, 0] =
     Some (Inl (AssertFail 249))"
proof -
  have c: "cumfreqs 0 [255, 1] = [255, 256]" by simp
  have z: "of_nat (2 ^ 32) = (0::u32)" by simp
  have p: "0 < (2::nat) ^ 32" by simp
  show ?thesis unfolding c using ff_overflow [OF z p] big_table_run by blast
qed

text \<open>
  Claim C1 for tables the \<^verbatim>\<open>int\<close> search covers and runs in which the counter does not wrap:
  for every frequency vector of at most \<open>2^31\<close> bins with a total of at most
  \<open>MINR = 2^41\<close> and every sequence \<open>xs\<close> of symbols of non-zero frequency, of any length,
  during whose encoding \<^verbatim>\<open>num_ff_bytes++\<close> is never executed with \<^verbatim>\<open>num_ff_bytes\<close> at
  \<open>2^32 - 1\<close>, the encoder (one \<^verbatim>\<open>arith_encode\<close> per symbol from the initial state, then
  \<^verbatim>\<open>encoder_close\<close>) returns a file with no assertion failing, and the decoder
  (\<^verbatim>\<open>decoder_start\<close>, then one \<^verbatim>\<open>arith_decode\<close> per symbol) returns exactly \<open>xs\<close> from that
  file.
\<close>

theorem coder_round_trip:
  assumes le: "sum_list (map unat frqs) \<le> 2 ^ 41"
    and syms: "\<forall>s\<in>set xs. s < length frqs \<and> frqs ! s \<noteq> 0"
    and bins: "length frqs \<le> 2 ^ 31"
    and ff: "\<not> encode_wraps xs (cumfreqs 0 frqs) (coder_init (last (cumfreqs 0 frqs))) []"
  shows "\<exists>E. encode_stream (cumfreqs 0 frqs) xs = Some (Inr E) \<and>
             decode_stream (cumfreqs 0 frqs) (length xs) E = Some (Inr xs)"
proof (cases xs)
  case Nil
  have "decode_stream (cumfreqs 0 frqs) 0 E = Some (Inr [])" for E
    by (simp add: decode_stream_def split: prod.split)
  then show ?thesis by (simp add: Nil encode_stream_def)
next
  case (Cons s ss)
  then have "s < length frqs" using syms by simp
  then have ne: "frqs \<noteq> []" by auto
  have tab: "table_ok (cumfreqs 0 frqs) (last (cumfreqs 0 frqs))"
    using ne le by (rule table_of_freqs(1))
  have sy: "\<forall>s\<in>set xs. sym_ok (cumfreqs 0 frqs) s"
  proof
    fix s assume "s \<in> set xs"
    then have "s < length frqs" "frqs ! s \<noteq> 0" using syms by simp_all
    then show "sym_ok (cumfreqs 0 frqs) s" by (rule table_of_freqs(2) [OF ne le])
  qed
  have l31: "length (cumfreqs 0 frqs) \<le> 2 ^ 31" using bins by simp
  show ?thesis using tab sy ff l31 by (rule round_trip_table)
qed

text \<open>The frequencies 3, 3, 3 and the symbols 0, 1, 2, 2, 2, 1, 0 are an instance.\<close>

theorem coder_round_trip_witness:
  "sum_list (map unat [3, 3, 3 :: u64]) \<le> 2 ^ 41 \<and> length [3, 3, 3 :: u64] \<le> 2 ^ 31 \<and>
   \<not> encode_wraps [0, 1, 2, 2, 2, 1, 0] (cumfreqs 0 [3, 3, 3])
         (coder_init (last (cumfreqs 0 [3, 3, 3]))) [] \<and>
   (\<exists>E. encode_stream (cumfreqs 0 [3, 3, 3]) [0, 1, 2, 2, 2, 1, 0] = Some (Inr E) \<and>
        decode_stream (cumfreqs 0 [3, 3, 3]) (length [0, 1, 2, 2, 2, 1, 0 :: nat]) E =
          Some (Inr [0, 1, 2, 2, 2, 1, 0]))"
proof -
  have a: "sum_list (map unat [3, 3, 3 :: u64]) \<le> 2 ^ 41" by simp
  have b: "\<forall>s\<in>set [0, 1, 2, 2, 2, 1, 0 :: nat]. s < length [3, 3, 3 :: u64] \<and> [3, 3, 3 :: u64] ! s \<noteq> 0"
    by simp
  have c: "length [3, 3, 3 :: u64] \<le> 2 ^ 31" by simp
  have d: "\<not> encode_wraps [0, 1, 2, 2, 2, 1, 0] (cumfreqs 0 [3, 3, 3])
         (coder_init (last (cumfreqs 0 [3, 3, 3]))) []"
    by code_simp
  show ?thesis using a c d coder_round_trip [OF a b c d] by blast
qed

subsection \<open>The range between calls\<close>

text \<open>
  Claim C2 says that \<open>R > total\<close> holds at the entry of every \<^verbatim>\<open>arith_encode\<close> and
  \<^verbatim>\<open>arith_decode\<close>, because \<open>R\<close> starts as \<open>FULL\<close> and every renormalisation brings
  \<open>R\<close> back into \<open>(PART, FULL]\<close>. The loop \<^verbatim>\<open>while (R < PART)\<close> stops as soon as
  \<open>R \<ge> PART\<close>, so \<open>R = PART\<close> is a possible value: with frequencies \<open>2^24\<close> and
  \<open>2^40 - 1 - 2^24\<close>, coding symbol 0 from the initial state leaves \<open>R = 2^40\<close>, and one
  shift makes it \<open>2^48 = PART\<close>.
\<close>

theorem range_equals_part_counterexample:
  "encode_all [0] (cumfreqs 0 [16777216, 1099494850559]) (coder_init 1099511627775) [] =
     Some (Inr (\<lparr>total_c = 1099511627775, L = 0, R = 281474976710656,
                  last_non_ff_byte = 0, num_ff_bytes = 0, first = False,
                  bytes_out = 45, D = 0\<rparr>, [])) \<and>
   PART = 281474976710656"
  by code_simp

text \<open>
  Claim C2 with the interval closed at \<open>PART\<close>: for every frequency vector with a total
  between 1 and \<open>MINR = 2^41\<close>, (1) coding any sequence of symbols of non-zero frequency
  from the initial state returns, with no assertion failing, in a state with
  \<open>PART \<le> R \<le> FULL\<close> and \<open>R > total\<close>; as this holds for every sequence, it holds before
  every call; and (2) any number of \<^verbatim>\<open>arith_decode\<close> calls after \<^verbatim>\<open>decoder_start\<close>, on any
  input file, either stops at one of the assertions \<^verbatim>\<open>D<=R\<close> (lines 266 and 275, which a file
  that no encoder wrote can fail) or returns in such a state: \<^verbatim>\<open>assert(scale>0)\<close> never fails,
  nothing is divided by zero, and the renormalisation loop always ends. With more than
  \<open>2^31\<close> bins the search of \<^verbatim>\<open>arith_decode\<close>, whose bounds are \<^verbatim>\<open>int\<close>s, no longer covers the
  table, and a call can also stop at one of the assertions after the search (lines 247 to
  249); a call that returns still leaves \<open>R\<close> in that range.
\<close>

theorem coder_range_invariant:
  assumes "0 < sum_list (map unat frqs)" and "sum_list (map unat frqs) \<le> 2 ^ 41"
  shows "((\<forall>s\<in>set xs. s < length frqs \<and> frqs ! s \<noteq> 0) \<longrightarrow>
          (\<exists>g fp. encode_all xs (cumfreqs 0 frqs) (coder_init (last (cumfreqs 0 frqs))) [] =
                     Some (Inr (g, fp)) \<and>
                   PART \<le> R g \<and> R g \<le> FULL \<and> total_c g < R g)) \<and>
         ((\<exists>n. decode_n k (cumfreqs 0 frqs)
                  (fst (decoder_start (coder_init (last (cumfreqs 0 frqs))) stream))
                  (snd (decoder_start (coder_init (last (cumfreqs 0 frqs))) stream)) =
                Some (Inl (AssertFail n)) \<and>
                (n = 266 \<or> n = 275 \<or> 2 ^ 31 < length frqs \<and> (n = 247 \<or> n = 248 \<or> n = 249))) \<or>
          (\<exists>vs g fp. decode_n k (cumfreqs 0 frqs)
                  (fst (decoder_start (coder_init (last (cumfreqs 0 frqs))) stream))
                  (snd (decoder_start (coder_init (last (cumfreqs 0 frqs))) stream)) =
                Some (Inr (vs, g, fp)) \<and>
              PART \<le> R g \<and> R g \<le> FULL \<and> total_c g < R g))"
proof -
  let ?c = "cumfreqs 0 frqs"
  let ?t = "last ?c"
  have ne: "frqs \<noteq> []" using assms(1) by auto
  note tf = table_of_freqs [OF ne assms(2)]
  have tab: "table_ok ?c (total_c (coder_init ?t))" using tf(1) by (simp add: coder_init_def)
  have le: "?t \<le> MINR" using tf(1) by (simp add: table_ok_def)
  have tpos: "?t \<noteq> 0" using tf(3) assms(1) by (metis less_not_refl unat_0)
  have enc: "\<exists>g fp. encode_all xs ?c (coder_init ?t) [] = Some (Inr (g, fp)) \<and>
               PART \<le> R g \<and> R g \<le> FULL \<and> total_c g < R g"
    if v: "\<forall>s\<in>set xs. s < length frqs \<and> frqs ! s \<noteq> 0"
  proof -
    have syms: "\<forall>s\<in>set xs. sym_ok ?c s" using v tf(2) by blast
    obtain g fp where run: "encode_all xs ?c (coder_init ?t) [] = Some (Inr (g, fp))"
      "R_ok g" "total_c g = total_c (coder_init ?t)"
      using encode_all_lr_inv [OF lr_inv_init tab syms, of "[]"] by blast
    have "total_c g \<le> MINR" using run(3) le by (simp add: coder_init_def)
    then have "total_c g < R g" using R_ok_scale(1) [OF run(2)] by simp
    then show ?thesis using run(1,2) by (auto simp: R_ok_def)
  qed
  let ?g0 = "fst (decoder_start (coder_init ?t) stream)"
  let ?fp0 = "snd (decoder_start (coder_init ?t) stream)"
  have t0: "total_c ?g0 = ?t" by (simp add: decoder_start_plain coder_init_def)
  have ok0: "R_ok ?g0"
    using lr_inv_init(2) [of ?t] by (simp add: R_ok_def decoder_start_plain)
  have tab0: "table_ok ?c (total_c ?g0)" "total_c ?g0 \<noteq> 0" using tf(1) tpos t0 by simp_all
  have lc: "length ?c = length frqs" by (rule cumfreqs_length)
  consider (fail) n where "decode_n k ?c ?g0 ?fp0 = Some (Inl (AssertFail n))"
      "n = 266 \<or> n = 275 \<or> 2 ^ 31 < length frqs \<and> (n = 247 \<or> n = 248 \<or> n = 249)"
    | (ok) vs g fp where "decode_n k ?c ?g0 ?fp0 = Some (Inr (vs, g, fp))" "R_ok g"
        "total_c g = total_c ?g0"
    using decode_n_R [OF ok0 tab0, of k ?fp0] unfolding lc by blast
  then have dec: "(\<exists>n. decode_n k ?c ?g0 ?fp0 = Some (Inl (AssertFail n)) \<and>
            (n = 266 \<or> n = 275 \<or> 2 ^ 31 < length frqs \<and> (n = 247 \<or> n = 248 \<or> n = 249))) \<or>
          (\<exists>vs g fp. decode_n k ?c ?g0 ?fp0 = Some (Inr (vs, g, fp)) \<and>
              PART \<le> R g \<and> R g \<le> FULL \<and> total_c g < R g)"
  proof cases
    case fail
    then show ?thesis by blast
  next
    case ok
    have "total_c g \<le> MINR" using ok(3) t0 le by simp
    then have "total_c g < R g" using R_ok_scale(1) [OF ok(2)] by simp
    then show ?thesis using ok(1,2) by (auto simp: R_ok_def)
  qed
  show ?thesis using enc dec by blast
qed

theorem coder_range_invariant_witness:
  "0 < sum_list (map unat [3, 3, 3 :: u64]) \<and> sum_list (map unat [3, 3, 3 :: u64]) \<le> 2 ^ 41 \<and>
   (\<exists>g fp. encode_all [0, 1, 2, 2, 2, 1, 0] (cumfreqs 0 [3, 3, 3]) (coder_init 9) [] =
              Some (Inr (g, fp)) \<and>
            PART \<le> R g \<and> R g \<le> FULL \<and> total_c g < R g)"
proof -
  have a: "0 < sum_list (map unat [3, 3, 3 :: u64])" "sum_list (map unat [3, 3, 3 :: u64]) \<le> 2 ^ 41"
    by simp_all
  have b: "\<forall>s\<in>set [0, 1, 2, 2, 2, 1, 0 :: nat]. s < length [3, 3, 3 :: u64] \<and> [3, 3, 3 :: u64] ! s \<noteq> 0"
    by simp
  have c: "last (cumfreqs 0 [3, 3, 3]) = 9" by simp
  show ?thesis
    using a b coder_range_invariant [OF a, of "[0, 1, 2, 2, 2, 1, 0]" 0 "[]"] unfolding c by blast
qed

subsection \<open>The carry block\<close>

text \<open>
  Claim C3 says that when the coding step makes \<open>L > FULL\<close> the encoder increments the
  held byte, writes it, writes \<open>num_ff_bytes\<close> zero bytes and resets \<open>last_non_ff_byte\<close> to 0,
  also when \<open>num_ff_bytes = 0\<close>. In the code the writing is the body of
  \<^verbatim>\<open>while (num_ff_bytes>0)\<close>. After coding symbol 2 and then taking the coding step of
  symbol 1 with the frequencies 256, 2, 1, 1, \<open>L\<close> exceeds \<open>FULL\<close> with
  \<open>num_ff_bytes = 0\<close>: nothing is written and the held byte becomes 255, not 0.
\<close>

theorem carry_without_ff_run_counterexample:
  "arith_encode 2 [256, 258, 259, 260] (coder_init 260) [] =
     Some (Inr (\<lparr>total_c = 260, L = 2217156739563520, R = 70949015668113408,
                  last_non_ff_byte = 254, num_ff_bytes = 0, first = False,
                  bytes_out = 45, D = 0\<rparr>, [])) \<and>
   coding_step 1 [256, 258, 259, 260]
     \<lparr>total_c = 260, L = 2217156739563520, R = 70949015668113408,
       last_non_ff_byte = 254, num_ff_bytes = 0, first = False, bytes_out = 45, D = 0\<rparr> =
     \<lparr>total_c = 260, L = 72074649089705728, R = 545761658985486,
       last_non_ff_byte = 254, num_ff_bytes = 0, first = False, bytes_out = 45, D = 0\<rparr> \<and>
   FULL < (72074649089705728 :: u64) \<and>
   carry_step
     \<lparr>total_c = 260, L = 72074649089705728, R = 545761658985486,
       last_non_ff_byte = 254, num_ff_bytes = 0, first = False, bytes_out = 45, D = 0\<rparr> [] =
     (\<lparr>total_c = 260, L = 17055051777792, R = 545761658985486,
       last_non_ff_byte = 255, num_ff_bytes = 0, first = False, bytes_out = 45, D = 0\<rparr>, [])"
  by code_simp

text \<open>
  Claim C3 as the code has it: when \<open>L > FULL\<close>, \<open>L\<close> becomes \<open>L & FULL\<close> and the held byte
  is incremented. With \<open>num_ff_bytes = 0\<close> nothing is written and the incremented byte stays
  held. With \<open>num_ff_bytes = n > 0\<close> the incremented byte is written, followed by \<open>n - 1\<close>
  zero bytes, \<open>num_ff_bytes\<close> becomes 0 and \<open>last_non_ff_byte\<close> becomes 0: the last zero of
  the run is the new held byte, so \<open>n\<close> bytes are written, not \<open>n + 1\<close>.
\<close>

theorem carry_step_emission:
  "FULL < L g \<Longrightarrow>
   carry_step g fp =
     (if num_ff_bytes g = 0
      then (g\<lparr>last_non_ff_byte := last_non_ff_byte g + 1, L := L g AND FULL\<rparr>, fp)
      else (g\<lparr>last_non_ff_byte := 0, L := L g AND FULL, num_ff_bytes := 0,
               bytes_out := bytes_out g + of_nat (unat (num_ff_bytes g))\<rparr>,
            fp @ (last_non_ff_byte g + 1) # replicate (unat (num_ff_bytes g) - 1) 0))"
  unfolding carry_step_def by (subst carry_loop_eq) (simp add: ZERO_def)

theorem carry_step_emission_witness:
  "FULL < L ((coder_init 10)\<lparr>L := FULL + 1, last_non_ff_byte := 7, num_ff_bytes := 3, first := False\<rparr>) \<and>
   carry_step ((coder_init 10)\<lparr>L := FULL + 1, last_non_ff_byte := 7, num_ff_bytes := 3, first := False\<rparr>) [5] =
     (\<lparr>total_c = 10, L = 0, R = FULL, last_non_ff_byte = 0, num_ff_bytes = 0, first = False,
       bytes_out = 48, D = 0\<rparr>, [5, 8, 0, 0])"
proof -
  have a: "FULL < L ((coder_init 10)\<lparr>L := FULL + 1, last_non_ff_byte := 7, num_ff_bytes := 3, first := False\<rparr>)"
    by (simp add: FULL_def BBITS_def BBYTES_def)
  have b: "carry_step ((coder_init 10)\<lparr>L := FULL + 1, last_non_ff_byte := 7, num_ff_bytes := 3, first := False\<rparr>) [5] =
     (\<lparr>total_c = 10, L = 0, R = FULL, last_non_ff_byte = 0, num_ff_bytes = 0, first = False,
       bytes_out = 48, D = 0\<rparr>, [5, 8, 0, 0])"
    by code_simp
  show ?thesis
    using a b carry_step_emission [OF a, of "[5]"] by simp
qed

subsection \<open>The held byte\<close>

text \<open>
  Claim C4 says that between two calls of \<^verbatim>\<open>arith_encode\<close> the staged
  \<open>last_non_ff_byte\<close> is never 0xFF. A carry into a held 0xFE with no pending ff bytes makes
  it 0xFF: with the frequencies 256, 2, 1, 1, coding symbol 2 stages 0xFE, and coding
  symbol 1 carries into it.
\<close>

theorem held_byte_ff_counterexample:
  "encode_all [2, 1] (cumfreqs 0 [256, 2, 1, 1]) (coder_init 260) [] =
     Some (Inr (\<lparr>total_c = 260, L = 17055051777792, R = 545761658985486,
                  last_non_ff_byte = 255, num_ff_bytes = 0, first = False,
                  bytes_out = 45, D = 0\<rparr>, []))"
  by code_simp

text \<open>
  Claim C4 as the code has it: for every frequency vector with a total between 1 and
  \<open>2^41\<close> and every sequence of symbols of non-zero frequency, the encoder returns, and
  whenever the byte it then holds is 0xFF, \<open>L + R \<le> 2^56\<close>, so that the coding step of no
  further symbol makes \<open>L > FULL\<close>: no carry reaches a held 0xFF. A byte that the
  renormalisation loop stages is never 0xFF: an iteration either leaves
  \<open>last_non_ff_byte\<close> as it is or sets it to a byte other than 0xFF.
\<close>

theorem held_byte_ff_no_carry:
  assumes "0 < sum_list (map unat frqs)" and "sum_list (map unat frqs) \<le> 2 ^ 41"
    and "\<forall>s\<in>set xs. s < length frqs \<and> frqs ! s \<noteq> 0"
  shows "(\<exists>g fp. encode_all xs (cumfreqs 0 frqs) (coder_init (last (cumfreqs 0 frqs))) [] =
                   Some (Inr (g, fp)) \<and>
                 (\<not> first g \<and> last_non_ff_byte g = 255 \<longrightarrow>
                    unat (L g) + unat (R g) \<le> 2 ^ 56 \<and>
                    (\<forall>s. s < length frqs \<and> frqs ! s \<noteq> 0 \<longrightarrow>
                       \<not> FULL < L (coding_step s (cumfreqs 0 frqs) g)))) \<and>
         (\<forall>g fp. last_non_ff_byte (fst (renorm_body g fp)) = last_non_ff_byte g \<or>
                  last_non_ff_byte (fst (renorm_body g fp)) \<noteq> FULLBYTE)"
proof -
  let ?c = "cumfreqs 0 frqs"
  let ?t = "last ?c"
  have ne: "frqs \<noteq> []" using assms(1) by auto
  note tf = table_of_freqs [OF ne assms(2)]
  have tab: "table_ok ?c (total_c (coder_init ?t))" using tf(1) by (simp add: coder_init_def)
  have le: "?t \<le> MINR" using tf(1) by (simp add: table_ok_def)
  have syms: "\<forall>s\<in>set xs. sym_ok ?c s" using assms(3) tf(2) by blast
  obtain g fp where run: "encode_all xs ?c (coder_init ?t) [] = Some (Inr (g, fp))"
    "lr_inv g" "R_ok g" "total_c g = total_c (coder_init ?t)"
    using encode_all_lr_inv [OF lr_inv_init tab syms, of "[]"] by blast
  have tg: "total_c g = ?t" using run(4) by (simp add: coder_init_def)
  have tabg: "table_ok ?c (total_c g)" using tf(1) tg by simp
  have gt: "total_c g < R g" using R_ok_scale(1) [OF run(3)] le tg by simp
  have held: "unat (L g) + unat (R g) \<le> 2 ^ 56 \<and>
        (\<forall>s. s < length frqs \<and> frqs ! s \<noteq> 0 \<longrightarrow> \<not> FULL < L (coding_step s ?c g))"
    if h: "\<not> first g \<and> last_non_ff_byte g = 255"
  proof -
    have tight: "unat (L g) + unat (R g) \<le> 2 ^ 56" using run(2) h by (simp add: lr_inv_def)
    have "\<not> FULL < L (coding_step s ?c g)" if "s < length frqs \<and> frqs ! s \<noteq> 0" for s
      using no_carry_when_tight [OF run(2) tabg _ gt tight] tf(2) that by blast
    then show ?thesis using tight by blast
  qed
  have stage: "last_non_ff_byte (fst (renorm_body g fp)) = last_non_ff_byte g \<or>
               last_non_ff_byte (fst (renorm_body g fp)) \<noteq> FULLBYTE" for g fp
    by (simp add: renorm_body_plain(6))
  show ?thesis using run(1) held stage by blast
qed

theorem held_byte_ff_no_carry_witness:
  "0 < sum_list (map unat [256, 2, 1, 1 :: u64]) \<and>
   sum_list (map unat [256, 2, 1, 1 :: u64]) \<le> 2 ^ 41 \<and>
   (\<exists>g fp. encode_all [2, 1] (cumfreqs 0 [256, 2, 1, 1]) (coder_init 260) [] = Some (Inr (g, fp)) \<and>
      \<not> first g \<and> last_non_ff_byte g = 255 \<and> unat (L g) + unat (R g) \<le> 2 ^ 56)"
proof -
  have a: "0 < sum_list (map unat [256, 2, 1, 1 :: u64])"
    "sum_list (map unat [256, 2, 1, 1 :: u64]) \<le> 2 ^ 41"
    "\<forall>s\<in>set [2, 1 :: nat]. s < length [256, 2, 1, 1 :: u64] \<and> [256, 2, 1, 1 :: u64] ! s \<noteq> 0"
    by simp_all
  have c: "last (cumfreqs 0 [256, 2, 1, 1]) = 260" by simp
  have e: "encode_all [2, 1] (cumfreqs 0 [256, 2, 1, 1]) (coder_init 260) [] =
     Some (Inr (\<lparr>total_c = 260, L = 17055051777792, R = 545761658985486,
                  last_non_ff_byte = 255, num_ff_bytes = 0, first = False,
                  bytes_out = 45, D = 0\<rparr>, []))"
    by code_simp
  let ?g = "\<lparr>total_c = 260, L = 17055051777792, R = 545761658985486,
             last_non_ff_byte = 255, num_ff_bytes = 0, first = False,
             bytes_out = 45, D = 0 :: u64\<rparr>"
  from held_byte_ff_no_carry [OF a, unfolded c e]
  obtain g fp where g: "Some (Inr (?g, [] :: u8 list)) = Some (Inr (g, fp))"
    and imp: "\<not> first g \<and> last_non_ff_byte g = 255 \<longrightarrow> unat (L g) + unat (R g) \<le> 2 ^ 56"
    by blast
  from g have eq: "g = ?g" "fp = []" by simp_all
  then have "\<not> first g \<and> last_non_ff_byte g = 255" by simp
  then have "unat (L g) + unat (R g) \<le> 2 ^ 56" using imp by blast
  then have "encode_all [2, 1] (cumfreqs 0 [256, 2, 1, 1]) (coder_init 260) [] = Some (Inr (g, fp)) \<and>
      \<not> first g \<and> last_non_ff_byte g = 255 \<and> unat (L g) + unat (R g) \<le> 2 ^ 56"
    unfolding e using eq by simp
  then show ?thesis using a(1,2) by blast
qed

subsection \<open>Reading past the end of the compressed file\<close>

text \<open>
  Claim C5 says that a read past the end of the input behaves as reading a zero byte.
  \<^verbatim>\<open>fgetc\<close> returns \<^verbatim>\<open>EOF\<close>, that is -1, there, and \<^verbatim>\<open>D += fgetc(fp)\<close> adds it to the
  unsigned 64-bit \<open>D\<close>: \<open>D\<close> is decremented. Coding symbol 0 with frequencies 5, 5 gives seven
  zero bytes. From the first six of them \<^verbatim>\<open>decoder_start\<close> computes \<open>D = 2^64 - 1\<close>, not 0,
  and the first \<^verbatim>\<open>arith_decode\<close> fails its own \<^verbatim>\<open>assert(D<=R)\<close>. Coding symbol 1 with
  frequencies 256, 5 gives seven bytes ending in a zero byte; without that last byte the
  decoder returns symbol 0.
\<close>

theorem decoder_eof_not_zero:
  "encode_stream (cumfreqs 0 [5, 5]) [0] = Some (Inr [0, 0, 0, 0, 0, 0, 0]) \<and>
   decode_stream (cumfreqs 0 [5, 5]) 1 [0, 0, 0, 0, 0, 0, 0] = Some (Inr [0]) \<and>
   D (fst (decoder_start (coder_init 10) [0, 0, 0, 0, 0, 0, 0])) = 0 \<and>
   D (fst (decoder_start (coder_init 10) [0, 0, 0, 0, 0, 0])) = 18446744073709551615 \<and>
   decode_stream (cumfreqs 0 [5, 5]) 1 [0, 0, 0, 0, 0, 0] = Some (Inl (AssertFail 266)) \<and>
   encode_stream (cumfreqs 0 [256, 5]) [1] = Some (Inr [251, 24, 133, 101, 6, 221, 0]) \<and>
   decode_stream (cumfreqs 0 [256, 5]) 1 [251, 24, 133, 101, 6, 221, 0] = Some (Inr [1]) \<and>
   decode_stream (cumfreqs 0 [256, 5]) 1 [251, 24, 133, 101, 6, 221] = Some (Inr [0])"
  by code_simp

section \<open>Properties of the encode tool\<close>

subsection \<open>The header of the index file\<close>

text \<open>
  Claim C6 says that an index file that begins with at least \<open>HEADER = 45\<close> bytes has those
  bytes copied to the output and is then coded to the end, rather than ending in a read
  error. The code compares the result of \<^verbatim>\<open>fread(head, sizeof(*head), HEADER, fi)\<close>, the
  number of one-byte items read, with 1: on every file of at least 45 bytes that number is
  45, and \<^verbatim>\<open>read_error()\<close> is called before anything is written.
\<close>

theorem encoder_main_rejects_header:
  "HEADER \<le> length fi \<Longrightarrow> encoder_main fl U c fi = Some (Inl ReadError)"
  by (simp add: encoder_main_def fread_def HEADER_def min_def)

theorem encoder_main_rejects_header_witness:
  "HEADER \<le> length (replicate 49 (0::u8)) \<and>
   encoder_main (\<lambda>bs. (0::int)) [0, 1, 2, 3] [1, 2, 3, 4] (replicate 49 0) = Some (Inl ReadError)"
  using encoder_main_rejects_header [of "replicate 49 0" "\<lambda>bs. (0::int)" "[0, 1, 2, 3]" "[1, 2, 3, 4]"]
  by (simp add: HEADER_def)

subsection \<open>The search for the bin of a float\<close>

lemma bin_search_inv:
  "0 \<le> lo \<Longrightarrow> lo \<le> hi \<Longrightarrow> hi < int (length U) \<Longrightarrow> sorted U \<Longrightarrow>
   (\<forall>j<nat lo. U ! j < f) \<Longrightarrow> f \<le> U ! nat hi \<Longrightarrow>
   lo \<le> bin_search_ideal U f lo hi \<and> bin_search_ideal U f lo hi \<le> hi \<and>
   f \<le> U ! nat (bin_search_ideal U f lo hi) \<and> (\<forall>j<nat (bin_search_ideal U f lo hi). U ! j < f)"
proof (induction U f lo hi rule: bin_search_ideal.induct)
  case (1 U f lo hi)
  show ?case
  proof (cases "lo < hi")
    case False
    with "1.prems" have "lo = hi" by simp
    with "1.prems" show ?thesis by (simp add: bin_search_ideal.simps [of U f hi hi])
  next
    case True
    define md where "md = lo + (hi - lo) div 2"
    have md: "lo \<le> md" "md < hi" using True by (auto simp: md_def)
    show ?thesis
    proof (cases "f \<le> U ! nat md")
      case le: True
      have eq: "bin_search_ideal U f lo hi = bin_search_ideal U f lo md"
        using True le by (subst bin_search_ideal.simps) (simp add: md_def Let_def)
      have "lo \<le> bin_search_ideal U f lo md \<and> bin_search_ideal U f lo md \<le> md \<and>
            f \<le> U ! nat (bin_search_ideal U f lo md) \<and> (\<forall>j<nat (bin_search_ideal U f lo md). U ! j < f)"
        using "1.IH"(1) [OF True md_def le] "1.prems" md le by simp
      with md show ?thesis unfolding eq by auto
    next
      case gt: False
      have eq: "bin_search_ideal U f lo hi = bin_search_ideal U f (md + 1) hi"
        using True gt by (subst bin_search_ideal.simps) (simp add: md_def Let_def)
      have below: "\<forall>j<nat (md + 1). U ! j < f"
      proof (intro allI impI)
        fix j assume j: "j < nat (md + 1)"
        then have "j \<le> nat md" using md "1.prems"(1) by linarith
        moreover have "nat md < length U" using md "1.prems" by linarith
        ultimately have "U ! j \<le> U ! nat md"
          using "1.prems"(4) by (simp add: sorted_nth_mono)
        with gt show "U ! j < f" by simp
      qed
      have "md + 1 \<le> bin_search_ideal U f (md + 1) hi \<and> bin_search_ideal U f (md + 1) hi \<le> hi \<and>
            f \<le> U ! nat (bin_search_ideal U f (md + 1) hi) \<and>
            (\<forall>j<nat (bin_search_ideal U f (md + 1) hi). U ! j < f)"
        using "1.IH"(2) [OF True md_def gt] "1.prems" md below by simp
      with md show ?thesis unfolding eq by auto
    qed
  qed
qed

lemma bin_search_eq:
  "0 \<le> lo \<Longrightarrow> hi < 2 ^ 31 \<Longrightarrow> bin_search U f lo hi = Some (bin_search_ideal U f lo hi)"
proof (induction U f lo hi rule: bin_search_ideal.induct)
  case (1 U f lo hi)
  show ?case
  proof (cases "lo < hi")
    case False
    then have "bin_search_ideal U f lo hi = lo" by (subst bin_search_ideal.simps) simp
    moreover have "bin_search U f lo hi = Some lo" using False by (subst bin_search.simps) simp
    ultimately show ?thesis by simp
  next
    case True
    define md where "md = lo + (hi - lo) div 2"
    have md: "lo \<le> md" "md < hi" using True by (auto simp: md_def)
    have d: "0 \<le> hi - lo" "hi - lo < 2 ^ 31" using True "1.prems" by linarith+
    have "to_int (hi - lo) = hi - lo" using d by (intro to_int_id) linarith+
    then have "lo + c_div (to_int (hi - lo)) 2 = md" using d(1) by (simp add: c_div_2 md_def)
    moreover have mr: "0 \<le> md" "md < 2 ^ 31" using md "1.prems" by linarith+
    moreover have "to_int md = md" using mr by (intro to_int_id) linarith+
    ultimately have w: "to_int (lo + c_div (to_int (hi - lo)) 2) = md" by simp
    have m1: "to_int (md + 1) = md + 1" using mr md "1.prems" by (intro to_int_id) linarith+
    show ?thesis
    proof (cases "f \<le> U ! nat md")
      case le: True
      have "bin_search U f lo hi = bin_search U f lo md"
        using True le by (subst bin_search.simps) (simp add: w Let_def)
      moreover have "bin_search_ideal U f lo hi = bin_search_ideal U f lo md"
        using True le by (subst bin_search_ideal.simps) (simp add: md_def Let_def)
      moreover have "bin_search U f lo md = Some (bin_search_ideal U f lo md)"
        using "1.IH"(1) [OF True md_def le "1.prems"(1)] mr(2) by simp
      ultimately show ?thesis by simp
    next
      case gt: False
      have "bin_search U f lo hi = bin_search U f (md + 1) hi"
        using True gt by (subst bin_search.simps) (simp add: w m1 Let_def)
      moreover have "bin_search_ideal U f lo hi = bin_search_ideal U f (md + 1) hi"
        using True gt by (subst bin_search_ideal.simps) (simp add: md_def Let_def)
      moreover have "bin_search U f (md + 1) hi = Some (bin_search_ideal U f (md + 1) hi)"
        using "1.IH"(2) [OF True md_def gt] mr(1) "1.prems"(2) by simp
      ultimately show ?thesis by simp
    qed
  qed
qed

text \<open>
  Claim C9 says that for every non-decreasing array \<open>U[0..num_bins)\<close> and every query
  \<open>f \<le> U[num_bins-1]\<close> the binary search of encoder.c returns the smallest \<open>k\<close> with
  \<open>f \<le> U[k]\<close>. The bounds of the search are \<^verbatim>\<open>int\<close>s, and \<^verbatim>\<open>hi = num_bins-1\<close> assigns a
  \<^verbatim>\<open>size_t\<close> to one of them. With \<open>2^31 + 1\<close> bins \<open>hi\<close> becomes \<open>-2^31\<close>, the loop is not
  entered and the search returns 0: for \<open>U\<close> made of \<open>2^31\<close> zeros followed by 1, and the
  query 1, the smallest index is \<open>2^31\<close>, and \<open>f \<le> U[0]\<close> does not hold.
\<close>

theorem bin_search_int_bounds_counterexample:
  "bin_search (replicate (2 ^ 31) 0 @ [1 :: int]) 1 0
       (to_int (int (length (replicate (2 ^ 31) (0::int) @ [1])) - 1)) = Some 0 \<and>
   (replicate (2 ^ 31) 0 @ [1 :: int]) ! 0 = 0 \<and>
   (replicate (2 ^ 31) 0 @ [1 :: int]) ! (2 ^ 31) = 1 \<and>
   last (replicate (2 ^ 31) 0 @ [1 :: int]) = 1"
proof -
  have "to_int (int (length (replicate (2 ^ 31) (0::int) @ [1])) - 1) = - (2 ^ 31)"
    by (simp add: to_int_def)
  then have "bin_search (replicate (2 ^ 31) 0 @ [1 :: int]) 1 0
       (to_int (int (length (replicate (2 ^ 31) (0::int) @ [1])) - 1)) = Some 0"
    by (subst bin_search.simps) simp
  moreover have "(replicate (2 ^ 31) 0 @ [1 :: int]) ! 0 = 0" by (simp add: nth_append)
  moreover have "(replicate (2 ^ 31) 0 @ [1 :: int]) ! (2 ^ 31) = 1" by (simp add: nth_append)
  moreover have "last (replicate (2 ^ 31) 0 @ [1 :: int]) = 1" by simp
  ultimately show ?thesis by blast
qed

text \<open>
  Claim C9 for tables whose last index fits an \<^verbatim>\<open>int\<close>: for a non-empty, non-decreasing
  array \<open>U\<close> of at most \<open>2^31\<close> entries and a query \<open>f \<le> U[num_bins-1]\<close> the binary search of
  encoder.c, started as the code starts it with \<open>lo = 0\<close> and \<open>hi = num_bins - 1\<close>,
  returns an index \<open>k\<close> inside the array with \<open>f \<le> U[k]\<close>, every entry before \<open>k\<close> is
  strictly below \<open>f\<close> (so \<open>k\<close> is the smallest such index), and \<open>k = 0\<close> or \<open>U[k-1] < f\<close>:
  both assertions of lines 77 and 78 hold.
\<close>

theorem bin_search_smallest:
  assumes "U \<noteq> []" and "sorted U" and "f \<le> last U" and "length U \<le> 2 ^ 31"
  shows "\<exists>k. bin_search U f 0 (to_int (int (length U) - 1)) = Some k \<and> 0 \<le> k \<and>
             nat k < length U \<and> f \<le> U ! nat k \<and> (\<forall>j<nat k. U ! j < f) \<and>
             (nat k = 0 \<or> U ! (nat k - 1) < f)"
proof -
  let ?k = "bin_search_ideal U f 0 (int (length U) - 1)"
  have len: "0 < length U" using assms(1) by simp
  then have "- (2 ^ 31) \<le> int (length U) - 1" "int (length U) - 1 < 2 ^ 31"
    using assms(4) by simp_all
  then have h: "to_int (int (length U) - 1) = int (length U) - 1" by (rule to_int_id)
  have "bin_search U f 0 (int (length U) - 1) = Some ?k"
    using len assms(4) by (intro bin_search_eq) simp_all
  then have run: "bin_search U f 0 (to_int (int (length U) - 1)) = Some ?k" unfolding h .
  have "f \<le> U ! nat (int (length U) - 1)"
    using assms(1,3) by (simp add: last_conv_nth nat_diff_distrib')
  then have inv: "0 \<le> ?k \<and> ?k \<le> int (length U) - 1 \<and> f \<le> U ! nat ?k \<and> (\<forall>j<nat ?k. U ! j < f)"
    using bin_search_inv [of 0 "int (length U) - 1" U f] len assms(2) by simp
  then have "nat ?k < length U" using len by linarith
  moreover have "nat ?k = 0 \<or> U ! (nat ?k - 1) < f"
    using inv by (cases "nat ?k") auto
  ultimately show ?thesis using inv run by blast
qed

theorem bin_search_smallest_witness:
  "[1, 3, 3, 7 :: int] \<noteq> [] \<and> sorted [1, 3, 3, 7 :: int] \<and> (3::int) \<le> last [1, 3, 3, 7] \<and>
   length [1, 3, 3, 7 :: int] \<le> 2 ^ 31 \<and>
   bin_search [1, 3, 3, 7 :: int] 3 0 (to_int (int (length [1, 3, 3, 7 :: int]) - 1)) = Some 1"
proof -
  have "bin_search [1, 3, 3, 7 :: int] 3 0 (to_int (int (length [1, 3, 3, 7 :: int]) - 1)) = Some 1"
    by code_simp
  then show ?thesis
    using bin_search_smallest [of "[1, 3, 3, 7 :: int]" 3] by simp
qed

section \<open>Properties of the quantizer\<close>

subsection \<open>The method table\<close>

text \<open>
  Claim C7 says that \<open>bintype\<close> 1, 2, 3, 4 selects FD (\<^verbatim>\<open>bins_fixed_domain\<close>), FR
  (\<^verbatim>\<open>bins_fixed_range\<close>), GD (\<^verbatim>\<open>bins_geometric_domain\<close>) and CFR
  (\<^verbatim>\<open>bins_fixed_skinny\<close>). The table \<^verbatim>\<open>labels\<close> starts with an empty entry and agrees
  with that, but \<^verbatim>\<open>bin_funcs\<close> has no such entry and is indexed by the same \<open>bintype\<close>:
  the function called is the one of the next method, and \<open>bintype = 4\<close> reads past the end
  of the table.
\<close>

theorem select_method_off_by_one:
  "select_method 1 = Inr (''FD'', Bins_fixed_range) \<and>
   select_method 2 = Inr (''FR'', Bins_geometric_domain) \<and>
   select_method 3 = Inr (''GD'', Bins_fixed_skinny) \<and>
   select_method 4 = Inl OutOfBounds"
  by (simp add: select_method_def NUM_METHODS_def labels_def bin_funcs_def)

subsection \<open>The sum of the frequencies\<close>

text \<open>\<^verbatim>\<open>bins_fixed_domain\<close> gives every bin but the middle one or two \<open>nF / num_bins\<close> values
  and the middle the rest: its frequencies add up to \<open>nF\<close>, for every \<open>nF\<close> and every
  \<open>num_bins\<close> but 0.\<close>

lemma fd_loop:
  fixes num_bins :: u64
  assumes len: "length C = unat num_bins"
  shows "k \<le> (unat num_bins - 1) div 2 \<Longrightarrow>
    \<exists>Ck. fold (fd_step num_bins step) [0..<k] (C, 0) = (Ck, of_nat (2 * k) * step) \<and>
      length Ck = unat num_bins \<and>
      (\<forall>j<unat num_bins. Ck ! j = (if j < k \<or> unat num_bins - k \<le> j then step else C ! j))"
proof (induction k)
  case 0
  then show ?case using len by simp
next
  case (Suc k)
  define n where "n = unat num_bins"
  have k: "k < (n - 1) div 2" using Suc.prems by (simp add: n_def)
  then have kn: "k + 1 < n" by linarith
  obtain Ck where ih: "fold (fd_step num_bins step) [0..<k] (C, 0) = (Ck, of_nat (2 * k) * step)"
    "length Ck = n" "\<forall>j<n. Ck ! j = (if j < k \<or> n - k \<le> j then step else C ! j)"
    using Suc.IH k unfolding n_def by force
  have idx: "unat (num_bins - of_nat k - 1) = n - k - 1"
  proof -
    have "num_bins - of_nat k - 1 = of_nat (n - k - 1)"
      using kn by (simp add: n_def of_nat_diff)
    moreover have "n - k - 1 < 2 ^ 64" using unsigned_less [of num_bins, where 'a = nat] by (simp add: n_def)
    ultimately show ?thesis by (simp add: unat_of_nat)
  qed
  define C' where "C' = Ck[n - k - 1 := step, k := step]"
  have st: "fd_step num_bins step k (Ck, of_nat (2 * k) * step) =
      (C', of_nat (2 * k) * step + 2 * step)"
    by (simp add: fd_step_def idx C'_def)
  have sof: "of_nat (2 * k) * step + 2 * step = of_nat (2 * Suc k) * step"
    by (simp add: algebra_simps)
  have run: "fold (fd_step num_bins step) [0..<Suc k] (C, 0) = (C', of_nat (2 * Suc k) * step)"
    by (simp only: upt_Suc_append [OF le0] fold_append o_apply ih(1) fold_simps id_apply st sof)
  have l: "length C' = n" by (simp add: C'_def ih(2))
  have "C' ! j = (if j < Suc k \<or> n - Suc k \<le> j then step else C ! j)" if j: "j < n" for j
  proof -
    have "C' ! j = (if j = k then step else if j = n - k - 1 then step else Ck ! j)"
      using j kn by (simp add: C'_def ih(2) nth_list_update)
    also have "\<dots> = (if j < Suc k \<or> n - Suc k \<le> j then step else C ! j)"
      using ih(3) j kn by (auto simp: less_Suc_eq)
    finally show ?thesis .
  qed
  then show ?case using run l unfolding n_def by blast
qed

lemma bins_fixed_domain_sum:
  fixes num_bins nF :: u64
  assumes nz: "num_bins \<noteq> 0" and len: "length C = unat num_bins"
  shows "\<exists>C'. bins_fixed_domain C num_bins nF = Inr C' \<and> length C' = unat num_bins \<and>
               sum_list (map unat C') = unat nF"
proof -
  define n where "n = unat num_bins"
  define N where "N = unat nF"
  define h where "h = (n - 1) div 2"
  define step where "step = nF div num_bins"
  define st where "st = unat step"
  have npos: "0 < n" using nz by (simp add: n_def unat_gt_0)
  have st: "st = N div n" by (simp add: st_def step_def unat_div N_def n_def)
  have hw: "unat ((num_bins - 1) div 2) = h"
    using nz by (simp add: unat_div unat_minus_one h_def n_def)
  have hk: "h \<le> (unat num_bins - 1) div 2" by (simp add: h_def n_def)
  obtain Ch where loop: "fold (fd_step num_bins step) [0..<h] (C, 0) = (Ch, of_nat (2 * h) * step)"
    "length Ch = n" "\<forall>j<n. Ch ! j = (if j < h \<or> n - h \<le> j then step else C ! j)"
    using fd_loop [OF len hk, of step] unfolding n_def by blast
  define sofar where "sofar = (of_nat (2 * h) * step :: u64)"
  define rest where "rest = nF - sofar"
  have nf: "2 * word_of_nat h * step = sofar" by (simp add: sofar_def)
  have "2 * h \<le> n" unfolding h_def by linarith
  then have "2 * h * st \<le> n * st" by (rule mult_le_mono1)
  also have "\<dots> \<le> N" unfolding st by simp
  finally have b: "2 * h * st \<le> N" .
  have N64: "N < 2 ^ 64" using unsigned_less [of nF, where 'a = nat] by (simp add: N_def)
  have e: "sofar = of_nat (2 * h * st)" by (simp add: sofar_def st_def)
  have "unat (word_of_nat (2 * h * st) :: u64) = (2 * h * st) mod 2 ^ LENGTH(64)"
    by (rule unat_of_nat)
  also have "\<dots> = 2 * h * st" using b N64 by simp
  finally have us: "unat sofar = 2 * h * st" unfolding e .
  then have "sofar \<le> nF" using b by (simp add: word_le_nat_alt N_def)
  then have ur: "unat rest = N - 2 * h * st" by (simp add: rest_def unat_sub us N_def)
  show ?thesis
  proof (cases "even n")
    case True
    then have n2: "n = 2 * h + 2" using npos unfolding h_def by (auto elim!: evenE)
    have "unat (num_bins mod 2) = 0" using True by (simp add: unat_mod n_def [symmetric])
    then have m0: "num_bins mod 2 = 0" by (simp add: unat_eq_0)
    have d1: "unat (num_bins div 2) = h + 1" using n2 by (simp add: unat_div n_def [symmetric])
    then have "num_bins div 2 \<noteq> 0" by (metis Suc_eq_plus1 nat.simps(3) unat_0)
    then have d0: "unat (num_bins div 2 - 1) = h" using d1 by (simp add: unat_minus_one)
    define m1 where "m1 = rest div 2"
    define m2 where "m2 = rest - m1"
    define C' where "C' = Ch[h := m1, h + 1 := m2]"
    have um1: "unat m1 = unat rest div 2" by (simp add: m1_def unat_div)
    have "m1 \<le> rest" by (simp add: word_le_nat_alt um1)
    then have um2: "unat m2 = unat rest - unat rest div 2" by (simp add: m2_def unat_sub um1)
    have at: "Ch[h := m1] ! h = m1" using loop(2) n2 by simp
    have run: "bins_fixed_domain C num_bins nF = Inr C'"
      using nz len
      by (simp add: bins_fixed_domain_def step_def [symmetric] hw loop(1) m0 d0 d1
          nf rest_def [symmetric] m1_def [symmetric] at m2_def [symmetric]
          C'_def Let_def)
    have eq: "C' = replicate h step @ [m1, m2] @ replicate h step"
    proof (rule nth_equalityI)
      show "length C' = length (replicate h step @ [m1, m2] @ replicate h step)"
        by (simp add: C'_def loop(2) n2)
      fix j assume "j < length C'"
      then have j: "j < n" by (simp add: C'_def loop(2))
      consider "j < h" | "j = h" | "j = h + 1" | "h + 2 \<le> j" by linarith
      then show "C' ! j = (replicate h step @ [m1, m2] @ replicate h step) ! j"
      proof cases
        case 1
        then show ?thesis using j loop(2,3) by (simp add: C'_def nth_append)
      next
        case 2
        then show ?thesis using j loop(2) by (simp add: C'_def nth_append)
      next
        case 3
        then show ?thesis using j loop(2) by (simp add: C'_def nth_append)
      next
        case 4
        then have "(replicate h step @ [m1, m2] @ replicate h step) ! j = step"
          using j n2 by (simp add: nth_append nth_Cons')
        moreover have "C' ! j = step" using 4 j loop(2,3) n2 by (simp add: C'_def)
        ultimately show ?thesis by simp
      qed
    qed
    have "sum_list (map unat C') = h * st + (unat m1 + unat m2) + h * st"
      unfolding eq by (simp add: st_def sum_list_replicate)
    also have "\<dots> = N" using um1 um2 ur b by simp
    finally have "sum_list (map unat C') = N" .
    moreover have "length C' = n" by (simp add: C'_def loop(2))
    ultimately show ?thesis using run unfolding n_def N_def by blast
  next
    case False
    then have n2: "n = 2 * h + 1" unfolding h_def by (auto elim!: oddE)
    have "unat (num_bins mod 2) = 1" using False by (simp add: unat_mod n_def [symmetric] odd_iff_mod_2_eq_one)
    then have m0: "num_bins mod 2 \<noteq> 0" by (metis unat_0 zero_neq_one)
    have d1: "unat (num_bins div 2) = h" using n2 by (simp add: unat_div n_def [symmetric])
    define C' where "C' = Ch[h := rest]"
    have run: "bins_fixed_domain C num_bins nF = Inr C'"
      using nz len
      by (simp add: bins_fixed_domain_def step_def [symmetric] hw loop(1) m0 d1
          nf rest_def [symmetric] C'_def Let_def)
    have eq: "C' = replicate h step @ [rest] @ replicate h step"
    proof (rule nth_equalityI)
      show "length C' = length (replicate h step @ [rest] @ replicate h step)"
        by (simp add: C'_def loop(2) n2)
      fix j assume "j < length C'"
      then have j: "j < n" by (simp add: C'_def loop(2))
      consider "j < h" | "j = h" | "h + 1 \<le> j" by linarith
      then show "C' ! j = (replicate h step @ [rest] @ replicate h step) ! j"
      proof cases
        case 1
        then show ?thesis using j loop(2,3) by (simp add: C'_def nth_append)
      next
        case 2
        then show ?thesis using j loop(2) by (simp add: C'_def nth_append)
      next
        case 3
        then have "(replicate h step @ [rest] @ replicate h step) ! j = step"
          using j n2 by (simp add: nth_append nth_Cons')
        moreover have "C' ! j = step" using 3 j loop(2,3) n2 by (simp add: C'_def)
        ultimately show ?thesis by simp
      qed
    qed
    have "sum_list (map unat C') = h * st + unat rest + h * st"
      unfolding eq by (simp add: st_def sum_list_replicate)
    also have "\<dots> = N" using ur b by simp
    finally have "sum_list (map unat C') = N" .
    moreover have "length C' = n" by (simp add: C'_def loop(2))
    ultimately show ?thesis using run unfolding n_def N_def by blast
  qed
qed

text \<open>The rounding of the model on a few numbers: \<open>1/3\<close>, \<open>1/10\<close>, \<^verbatim>\<open>EPS\<close>, and two ties.\<close>

lemma rnd_examples:
  "rnd (1 / 3) = 6004799503160661 / 2 ^ 54"
  "rnd (1 / 10) = 3602879701896397 / 2 ^ 55"
  "EPS = 7737125245533627 / 2 ^ 86"
  "rnd (2 ^ 53 + 1) = 2 ^ 53"
  "rnd (2 ^ 53 + 3) = 2 ^ 53 + 4"
  by code_simp+

text \<open>
  Claim C8 says that each of the four strategies produces frequencies that add up to
  \<open>N\<close>, the number of values; \<^verbatim>\<open>print_bins\<close> and \<^verbatim>\<open>write_bins\<close> assert it
  (\<^verbatim>\<open>assert(strt==nF)\<close>). \<^verbatim>\<open>bins_fixed_domain\<close> does, as shown above. \<^verbatim>\<open>bins_fixed_range\<close> widens the range of the values by \<^verbatim>\<open>EPS\<close> on
  both sides so that the largest value is below the last threshold. Where the values are
  so large that a double cannot hold \<open>F[nF-1] + 1e-10\<close>, the sum is rounded back to
  \<open>F[nF-1]\<close>, the last threshold is not above the largest value, and the values equal to it
  are not counted. For four values \<open>2^40\<close> and four bins, \<open>minF\<close> and \<open>maxF\<close> are both
  \<open>2^40\<close>, \<open>interval\<close> is 0 and every frequency is 0; for the values 0, 1, 2 and \<open>2^21\<close> the
  frequencies are 3, 0, 0, 0. In both cases they do not add up to 4, whatever the array
  held before the call.
\<close>

theorem bins_fixed_range_loses_values:
  "bins_fixed_range [9, 9, 9, 9] 4 [2 ^ 40, 2 ^ 40, 2 ^ 40, 2 ^ 40] = Inr [0, 0, 0, 0] \<and>
   bins_fixed_range [9, 9, 9, 9] 4 [0, 1, 2, 2 ^ 21] = Inr [3, 0, 0, 0]"
  by code_simp

subsection \<open>Empty bins in the bins file\<close>

lemma sum_loop_reads:
  "j \<le> e \<Longrightarrow> unat e \<le> length F \<Longrightarrow>
   sum_loop F j e acc = Inr (acc @ take (unat e - unat j) (drop (unat j) F))"
proof (induction F j e acc rule: sum_loop.induct)
  case (1 F j e acc)
  show ?case
  proof (cases "j < e")
    case False
    with "1.prems" have "j = e" by simp
    then show ?thesis by (simp add: sum_loop.simps [of F e e])
  next
    case True
    then have lt: "unat j < unat e" by (simp add: word_less_nat_alt)
    have suc: "unat (j + 1) = Suc (unat j)" using True by unat_arith
    have inb: "unat j < length F" using lt "1.prems" by simp
    have le: "j + 1 \<le> e" using True by unat_arith
    have "sum_loop F j e acc = sum_loop F (j + 1) e (acc @ [F ! unat j])"
      using True inb by (subst sum_loop.simps) simp
    also have "\<dots> = Inr ((acc @ [F ! unat j]) @ take (unat e - unat (j + 1)) (drop (unat (j + 1)) F))"
      using "1.IH" [OF True inb le "1.prems"(2)] .
    also have "(acc @ [F ! unat j]) @ take (unat e - unat (j + 1)) (drop (unat (j + 1)) F)
               = acc @ take (unat e - unat j) (drop (unat j) F)"
    proof -
      have "drop (unat j) F = F ! unat j # drop (Suc (unat j)) F"
        using inb by (simp add: Cons_nth_drop_Suc)
      moreover have "unat e - unat j = Suc (unat e - Suc (unat j))" using lt by simp
      ultimately show ?thesis by (simp add: suc)
    qed
    finally show ?thesis .
  qed
qed

lemma write_bins_loop_ok:
  "length F < 2 ^ 64 \<Longrightarrow> unat strt + sum_list (map unat Cs) \<le> length F \<Longrightarrow>
   (0 < unat strt \<or> Cs = [] \<or> hd Cs \<noteq> 0) \<Longrightarrow>
   \<exists>rows. write_bins_loop rep F strt Cs = Inr (rows, strt + of_nat (sum_list (map unat Cs))) \<and>
     length rows = length Cs \<and>
     (\<forall>k<length Cs. fst (rows ! k) = F ! (unat strt + bin_start Cs k + unat (Cs ! k) - 1) \<and>
        0 < unat strt + bin_start Cs k + unat (Cs ! k) \<and>
        (Cs ! k = 0 \<longrightarrow> snd (rows ! k) = F ! (unat strt + bin_start Cs k - 1)))"
proof (induction Cs arbitrary: strt)
  case Nil
  then show ?case by simp
next
  case (Cons Ci Cs)
  let ?n = "sum_list (map unat Cs)"
  have bound: "unat strt + unat Ci + ?n \<le> length F" using Cons.prems(2) by simp
  have nowrap: "unat (strt + Ci) = unat strt + unat Ci"
    using bound Cons.prems(1) by (simp add: unat_add_lem [THEN iffD1])
  have pos: "0 < unat strt + unat Ci"
    using Cons.prems(3) by (auto simp: unat_gt_0)
  then have nz: "strt + Ci \<noteq> 0" using nowrap by (metis less_not_refl unat_0)
  have idx: "unat (strt + Ci - 1) = unat strt + unat Ci - 1"
    using nz nowrap by (simp add: unat_minus_one)
  have idx_lt: "unat (strt + Ci - 1) < length F" using idx pos bound by arith
  obtain rows where rows:
    "write_bins_loop rep F (strt + Ci) Cs = Inr (rows, strt + Ci + of_nat ?n)"
    "length rows = length Cs"
    "\<forall>k<length Cs. fst (rows ! k) = F ! (unat (strt + Ci) + bin_start Cs k + unat (Cs ! k) - 1) \<and>
        0 < unat (strt + Ci) + bin_start Cs k + unat (Cs ! k) \<and>
        (Cs ! k = 0 \<longrightarrow> snd (rows ! k) = F ! (unat (strt + Ci) + bin_start Cs k - 1))"
    using Cons.IH [of "strt + Ci"] Cons.prems(1) bound pos nowrap by auto
  have sumeq: "strt + of_nat (sum_list (map unat (Ci # Cs))) = strt + Ci + of_nat ?n"
    by simp
  show ?case
  proof (cases "Ci = 0")
    case True
    let ?r = "(F ! unat (strt + Ci - 1), F ! unat (strt + Ci - 1)) # rows"
    have run: "write_bins_loop rep F strt (Ci # Cs) = Inr (?r, strt + Ci + of_nat ?n)"
      using True idx_lt rows(1) by simp
    have "\<forall>k<length (Ci # Cs). fst (?r ! k) = F ! (unat strt + bin_start (Ci # Cs) k + unat ((Ci # Cs) ! k) - 1) \<and>
        0 < unat strt + bin_start (Ci # Cs) k + unat ((Ci # Cs) ! k) \<and>
        ((Ci # Cs) ! k = 0 \<longrightarrow> snd (?r ! k) = F ! (unat strt + bin_start (Ci # Cs) k - 1))"
    proof (intro allI impI)
      fix k assume "k < length (Ci # Cs)"
      then show "fst (?r ! k) = F ! (unat strt + bin_start (Ci # Cs) k + unat ((Ci # Cs) ! k) - 1) \<and>
        0 < unat strt + bin_start (Ci # Cs) k + unat ((Ci # Cs) ! k) \<and>
        ((Ci # Cs) ! k = 0 \<longrightarrow> snd (?r ! k) = F ! (unat strt + bin_start (Ci # Cs) k - 1))"
        using rows(3) idx pos nowrap True
        by (cases k) (auto simp: bin_start_def add.assoc)
    qed
    with run rows(2) show ?thesis unfolding sumeq by auto
  next
    case False
    then have Cpos: "0 < Ci" by (simp add: word_greater_zero_iff)
    have le: "strt \<le> strt + Ci" using nowrap by (simp add: word_le_nat_alt)
    have "unat (strt + Ci) \<le> length F" using nowrap bound by simp
    then have sl: "sum_loop F strt (strt + Ci) [] = Inr (take (unat Ci) (drop (unat strt) F))"
      using sum_loop_reads [OF le, of F "[]"] nowrap by simp
    let ?r = "(F ! unat (strt + Ci - 1), rep (take (unat Ci) (drop (unat strt) F))) # rows"
    have run: "write_bins_loop rep F strt (Ci # Cs) = Inr (?r, strt + Ci + of_nat ?n)"
      using Cpos sl idx_lt rows(1) by simp
    have "\<forall>k<length (Ci # Cs). fst (?r ! k) = F ! (unat strt + bin_start (Ci # Cs) k + unat ((Ci # Cs) ! k) - 1) \<and>
        0 < unat strt + bin_start (Ci # Cs) k + unat ((Ci # Cs) ! k) \<and>
        ((Ci # Cs) ! k = 0 \<longrightarrow> snd (?r ! k) = F ! (unat strt + bin_start (Ci # Cs) k - 1))"
    proof (intro allI impI)
      fix k assume "k < length (Ci # Cs)"
      then show "fst (?r ! k) = F ! (unat strt + bin_start (Ci # Cs) k + unat ((Ci # Cs) ! k) - 1) \<and>
        0 < unat strt + bin_start (Ci # Cs) k + unat ((Ci # Cs) ! k) \<and>
        ((Ci # Cs) ! k = 0 \<longrightarrow> snd (?r ! k) = F ! (unat strt + bin_start (Ci # Cs) k - 1))"
        using rows(3) idx pos nowrap False
        by (cases k) (auto simp: bin_start_def add.assoc)
    qed
    with run rows(2) show ?thesis unfolding sumeq by auto
  qed
qed

lemma write_bins_loop_first_empty:
  "length F < 2 ^ 64 \<Longrightarrow> write_bins_loop rep F 0 (0 # Cs) = Inl OutOfBounds"
proof -
  assume "length F < 2 ^ 64"
  moreover have "unat (0 + 0 - 1 :: u64) = 2 ^ 64 - 1" by (simp add: unsigned_minus_1_eq_mask mask_eq_exp_minus_1)
  ultimately have "\<not> unat (0 + 0 - 1 :: u64) < length F" by simp
  then show ?thesis by (simp del: add_0_left add_0_right)
qed

lemma preceding_nonempty:
  "C ! 0 \<noteq> (0::u64) \<Longrightarrow> k < length C \<Longrightarrow> 0 < k \<Longrightarrow> C ! k = 0 \<Longrightarrow>
   \<exists>j<k. C ! j \<noteq> 0 \<and> (\<forall>i. j < i \<and> i < k \<longrightarrow> C ! i = 0) \<and>
         bin_start C k = bin_start C j + unat (C ! j)"
proof (induction k)
  case 0
  then show ?case by simp
next
  case (Suc k)
  have step: "bin_start C (Suc k) = bin_start C k + unat (C ! k)"
    using Suc.prems(2) by (simp add: bin_start_def take_Suc_conv_app_nth)
  show ?case
  proof (cases "C ! k = 0")
    case False
    with step show ?thesis by (intro exI [of _ k]) (auto simp: less_Suc_eq)
  next
    case True
    with Suc.prems(1) have "0 < k" by (cases k) auto
    then obtain j where j: "j < k" "C ! j \<noteq> 0" "\<forall>i. j < i \<and> i < k \<longrightarrow> C ! i = 0"
      "bin_start C k = bin_start C j + unat (C ! j)"
      using Suc.IH Suc.prems True by auto
    show ?thesis
      using j True step by (intro exI [of _ j]) (auto simp: less_Suc_eq)
  qed
qed

text \<open>
  Claim C10: \<^verbatim>\<open>write_bins\<close> returns normally only when bin 0 is non-empty. If
  \<open>C[0] = 0\<close> the first index computed, \<^verbatim>\<open>strt+C[i]-1\<close>, is \<open>0 - 1\<close>, outside the array.
  If \<open>C[0] > 0\<close> and the frequencies add up to the length of \<open>F\<close>, the bins file is written,
  and for every empty bin \<open>k > 0\<close> both the upper bound and the representative written are
  \<open>F[start - 1]\<close>, which is the last value of the nearest non-empty bin before \<open>k\<close>.
\<close>

theorem write_bins_empty_bins:
  assumes "length F < 2 ^ 64" and "C \<noteq> []"
  shows "(C ! 0 = 0 \<longrightarrow> write_bins rep C F = Inl OutOfBounds) \<and>
         (C ! 0 \<noteq> 0 \<and> sum_list (map unat C) = length F \<longrightarrow>
            (\<exists>rows. write_bins rep C F = Inr (2, of_nat (length C), rows, C) \<and>
               length rows = length C \<and>
               (\<forall>k. 0 < k \<and> k < length C \<and> C ! k = 0 \<longrightarrow>
                  rows ! k = (F ! (bin_start C k - 1), F ! (bin_start C k - 1)) \<and>
                  (\<exists>j<k. C ! j \<noteq> 0 \<and> (\<forall>i. j < i \<and> i < k \<longrightarrow> C ! i = 0) \<and>
                     bin_start C k - 1 = bin_start C j + unat (C ! j) - 1 \<and>
                     bin_start C k - 1 < length F))))"
proof (intro conjI impI)
  assume "C ! 0 = 0"
  then obtain Cs where "C = 0 # Cs" using assms(2) by (cases C) auto
  then show "write_bins rep C F = Inl OutOfBounds"
    using write_bins_loop_first_empty [OF assms(1)] by (simp add: write_bins_def)
next
  assume a: "C ! 0 \<noteq> 0 \<and> sum_list (map unat C) = length F"
  then have hd: "hd C \<noteq> 0" using assms(2) by (simp add: hd_conv_nth)
  obtain rows where rows:
    "write_bins_loop rep F 0 C = Inr (rows, 0 + of_nat (sum_list (map unat C)))"
    "length rows = length C"
    "\<forall>k<length C. fst (rows ! k) = F ! (unat (0::u64) + bin_start C k + unat (C ! k) - 1) \<and>
        0 < unat (0::u64) + bin_start C k + unat (C ! k) \<and>
        (C ! k = 0 \<longrightarrow> snd (rows ! k) = F ! (unat (0::u64) + bin_start C k - 1))"
    using write_bins_loop_ok [of F 0 C rep] assms(1) a hd by auto
  have run: "write_bins rep C F = Inr (2, of_nat (length C), rows, C)"
    using rows(1) a by (simp add: write_bins_def)
  have "\<forall>k. 0 < k \<and> k < length C \<and> C ! k = 0 \<longrightarrow>
          rows ! k = (F ! (bin_start C k - 1), F ! (bin_start C k - 1)) \<and>
          (\<exists>j<k. C ! j \<noteq> 0 \<and> (\<forall>i. j < i \<and> i < k \<longrightarrow> C ! i = 0) \<and>
             bin_start C k - 1 = bin_start C j + unat (C ! j) - 1 \<and>
             bin_start C k - 1 < length F)"
  proof (intro allI impI)
    fix k assume k: "0 < k \<and> k < length C \<and> C ! k = 0"
    with rows(3) have r: "rows ! k = (F ! (bin_start C k - 1), F ! (bin_start C k - 1))"
      and pos: "0 < bin_start C k"
      by (auto simp: prod_eq_iff)
    obtain j where j: "j < k" "C ! j \<noteq> 0" "\<forall>i. j < i \<and> i < k \<longrightarrow> C ! i = 0"
      "bin_start C k = bin_start C j + unat (C ! j)"
      using preceding_nonempty [of C k] a k by auto
    have "bin_start C k \<le> sum_list (map unat C)"
    proof -
      have "sum_list (map unat C) = sum_list (map unat (take k C)) + sum_list (map unat (drop k C))"
        by (metis append_take_drop_id map_append sum_list_append)
      then show ?thesis by (simp add: bin_start_def)
    qed
    then have "bin_start C k - 1 < length F" using a pos by simp
    with r j show "rows ! k = (F ! (bin_start C k - 1), F ! (bin_start C k - 1)) \<and>
          (\<exists>j<k. C ! j \<noteq> 0 \<and> (\<forall>i. j < i \<and> i < k \<longrightarrow> C ! i = 0) \<and>
             bin_start C k - 1 = bin_start C j + unat (C ! j) - 1 \<and>
             bin_start C k - 1 < length F)"
      by auto
  qed
  with run rows(2)
  show "\<exists>rows. write_bins rep C F = Inr (2, of_nat (length C), rows, C) \<and>
               length rows = length C \<and>
               (\<forall>k. 0 < k \<and> k < length C \<and> C ! k = 0 \<longrightarrow>
                  rows ! k = (F ! (bin_start C k - 1), F ! (bin_start C k - 1)) \<and>
                  (\<exists>j<k. C ! j \<noteq> 0 \<and> (\<forall>i. j < i \<and> i < k \<longrightarrow> C ! i = 0) \<and>
                     bin_start C k - 1 = bin_start C j + unat (C ! j) - 1 \<and>
                     bin_start C k - 1 < length F))"
    by blast
qed

theorem write_bins_empty_bins_witness:
  "length [1, 2, 3, 4 :: int] < 2 ^ 64 \<and> [2, 0, 2 :: u64] \<noteq> [] \<and>
   [2, 0, 2 :: u64] ! 0 \<noteq> 0 \<and> sum_list (map unat [2, 0, 2 :: u64]) = length [1, 2, 3, 4 :: int] \<and>
   write_bins hd [2, 0, 2] [1, 2, 3, 4 :: int] = Inr (2, 3, [(2, 1), (2, 2), (4, 3)], [2, 0, 2])"
proof -
  have "write_bins hd [2, 0, 2] [1, 2, 3, 4 :: int] = Inr (2, 3, [(2, 1), (2, 2), (4, 3)], [2, 0, 2])"
    by code_simp
  then show ?thesis
    using write_bins_empty_bins [of "[1, 2, 3, 4 :: int]" "[2, 0, 2]" hd] by simp
qed

end
